theory Spec2Isabelle
  imports Complex_Main
begin

section \<open>The prime number table of \<open>src/euler/prime_table.hpp\<close>\<close>

text \<open>
  The header defines the function \<open>nth_prime_bounds\<close>, the class \<open>prime_table\<close>
  (a segmented sieve of Eratosthenes over a bit array of the odd numbers) and the class
  \<open>prime_iterator\<close> (a forward cursor over the primes of a table).

  The template parameter \<open>T\<close> is an integer type. The model takes it at the range of
  \<open>int\<close> with 32 bits, the value type that \<open>prime_iterator\<close> declares: values are
  integers between \<open>T_min\<close> and \<open>T_max\<close>. Division and remainder are those of C++,
  which truncate towards zero. An addition whose result can leave that range on some
  input is checked, and leaving the range is the error \<open>Overflow\<close>: these are \<open>N + 1\<close>
  in the member initialiser of the constructor, and \<open>_current + 2\<close> and \<open>p += 2\<close> in
  \<open>operator++\<close>. When \<open>N + 1\<close> is in range and \<open>N\<close> is not negative, every other value
  that the constructor computes in \<open>T\<close> lies between \<open>- 1\<close> and the larger of \<open>N\<close> and
  \<open>(N - 1) / 2 + window + isqrt(N)\<close>, which are at most \<open>T_max\<close> (lemma
  \<open>constructor_values_in_range\<close>): \<open>p = k*2+1\<close> is at most \<open>SMALL_N\<close>, \<open>2*k*(k+1)\<close> is
  at most \<open>N / 2\<close>, \<open>t + p\<close> is at most \<open>K + SMALL_N\<close>, and \<open>segment_start + window\<close> is
  at most \<open>K + window\<close>. These operations are the integers' own in the model.

  Every failure of the code is a value of the type \<open>error\<close>: a failed \<open>assert\<close>, an
  index outside the bit store or outside a vector, a failed allocation, an overflow, a
  conversion of a floating point value that no \<open>T\<close> holds, and a loop that would never
  end.
\<close>

subsection \<open>Integer arithmetic of C++\<close>

definition cdiv :: "int \<Rightarrow> int \<Rightarrow> int" where
  "cdiv a b = sgn a * sgn b * (\<bar>a\<bar> div \<bar>b\<bar>)"

definition cmod :: "int \<Rightarrow> int \<Rightarrow> int" where
  "cmod a b = a - cdiv a b * b"

datatype error =
  AssertionFailed | OutOfRange | AllocationFailed | Diverges | Overflow
  | UndefinedConversion | LengthError

text \<open>The range of \<open>T\<close>, and an addition in \<open>T\<close>.\<close>

definition T_max :: int where
  "T_max = 2147483647"

definition T_min :: int where
  "T_min = - 2147483648"

definition T_add :: "int \<Rightarrow> int \<Rightarrow> error + int" where
  "T_add a b = (if T_min \<le> a + b \<and> a + b \<le> T_max then Inr (a + b) else Inl Overflow)"

subsection \<open>The collaborators that are not part of the header\<close>


type_synonym bitset = "bool list"

text \<open>
  Modelled from the spec: \<open>dynamic_bitset.hpp\<close> is missing. The spec gives the packed
  bit store the operations \<open>create(size, initial_value)\<close>, \<open>test(index)\<close> and
  \<open>reset(index)\<close>, with indices in \<open>[0, size)\<close>. An index outside that range is the
  error \<open>OutOfRange\<close>; a negative size is the error \<open>AllocationFailed\<close>.
\<close>

definition bs_create :: "int \<Rightarrow> bool \<Rightarrow> error + bitset" where
  "bs_create n v = (if n < 0 then Inl AllocationFailed else Inr (replicate (nat n) v))"

definition bs_size :: "bitset \<Rightarrow> int" where
  "bs_size b = int (length b)"

definition bs_test :: "bitset \<Rightarrow> int \<Rightarrow> error + bool" where
  "bs_test b i = (if 0 \<le> i \<and> i < bs_size b then Inr (b ! nat i) else Inl OutOfRange)"

definition bs_reset :: "bitset \<Rightarrow> int \<Rightarrow> error + bitset" where
  "bs_reset b i = (if 0 \<le> i \<and> i < bs_size b then Inr (b[nat i := False]) else Inl OutOfRange)"

text \<open>
  Modelled from the spec: \<open>imath.hpp\<close> is missing. The spec says that \<open>isqrt(x)\<close>
  returns \<open>floor(sqrt(x))\<close> for a non-negative integer \<open>x\<close>.
\<close>

primrec sqrt_floor :: "nat \<Rightarrow> nat" where
  "sqrt_floor 0 = 0"
| "sqrt_floor (Suc n) =
     (let r = sqrt_floor n in if (r + 1) * (r + 1) \<le> Suc n then r + 1 else r)"

definition isqrt :: "int \<Rightarrow> int" where
  "isqrt x = int (sqrt_floor (nat x))"

subsection \<open>\<open>nth_prime_bounds\<close>\<close>

text \<open>
  For \<open>n \<ge> 6\<close> the bounds come from \<open>static_cast<T>(n*t)\<close>, where \<open>t\<close> is computed in
  \<open>long double\<close>. That value is the parameter \<open>nt\<close> of the model.
\<close>

definition nth_prime_bounds :: "(int \<Rightarrow> int) \<Rightarrow> int \<Rightarrow> int \<times> int" where
  "nth_prime_bounds nt n = (if n < 6 then (2, 11) else (nt n - n - 1, nt n + 1))"

subsection \<open>The table and its constructor\<close>

record prime_table =
  limit :: int
  table :: bitset

text \<open>The member initialiser \<open>table((N+1)/2, true)\<close>.\<close>

definition initial_table :: "int \<Rightarrow> error + bitset" where
  "initial_table N =
     (case T_add N 1 of
        Inl e \<Rightarrow> Inl e
      | Inr N1 \<Rightarrow> bs_create (cdiv N1 2) True)"

text \<open>
  Line 163, \<open>static_cast<T>(SMALL_N / std::log(SMALL_N))\<close>. The quotient is computed in
  floating point. \<open>std::log(1)\<close> is 0, so for \<open>SMALL_N = 1\<close> the quotient is \<open>1 / 0\<close>,
  which is infinite, and its conversion to \<open>T\<close> is undefined in C++; so is that of the
  quotient for a negative \<open>SMALL_N\<close>, which is not a number. For \<open>SMALL_N = 0\<close> the
  logarithm is minus infinity, the quotient is zero and so is the result. For \<open>SMALL_N \<ge> 2\<close>
  the quotient is positive and at most \<open>2 * SMALL_N\<close>; the model takes the exact
  quotient of the real numbers there. Nothing but the two \<open>reserve\<close> calls reads
  the result.
\<close>

definition estimated_small_count :: "int \<Rightarrow> error + int" where
  "estimated_small_count SMALL_N =
     (if SMALL_N < 0 \<or> SMALL_N = 1 then Inl UndefinedConversion
      else if SMALL_N = 0 then Inr 0
      else Inr \<lfloor>real_of_int SMALL_N / ln (real_of_int SMALL_N)\<rfloor>)"

text \<open>
  \<open>std::vector<T>::reserve(n)\<close>, lines 167 and 171. Its parameter is unsigned, so a
  negative \<open>n\<close> arrives as a size beyond \<open>max_size()\<close> and \<open>reserve\<close> throws
  \<open>std::length_error\<close>. Otherwise it only sizes the vector in advance; that the memory
  is there is taken for granted, as for the bit store.
\<close>

definition vector_reserve :: "int \<Rightarrow> error + unit" where
  "vector_reserve n = (if n < 0 then Inl LengthError else Inr ())"

text \<open>
  The loop \<open>for (; t <= SMALL_K; t += p) table.reset(t);\<close> of the bootstrap phase. It
  returns the store and the final \<open>t\<close>. With \<open>p = 0\<close> the loop would reset the same bit
  for ever.
\<close>

function mark_small :: "int \<Rightarrow> int \<Rightarrow> int \<Rightarrow> bitset \<Rightarrow> error + (bitset \<times> int)" where
  "mark_small p SMALL_K t tbl =
     (if t \<le> SMALL_K then
        (case bs_reset tbl t of
           Inl e \<Rightarrow> Inl e
         | Inr tbl' \<Rightarrow> if p = 0 then Inl Diverges else mark_small p SMALL_K (t + p) tbl')
      else Inr (tbl, t))"
  by pat_completeness auto
termination
  by (relation "measure (\<lambda>(p, SMALL_K, t, tbl). if 0 < p then nat (SMALL_K + 1 - t) else nat (t + 1))")
     (auto simp: bs_reset_def split: if_splits)

declare mark_small.simps [simp del]

text \<open>
  The loop \<open>for (T k = 1; k <= SMALL_K; k++)\<close>. The state is the bit store and the two
  vectors \<open>prime_p\<close> and \<open>next_multiple_t\<close>.
\<close>

type_synonym sieve_state = "bitset \<times> int list \<times> int list"

function sieve_small :: "int \<Rightarrow> int \<Rightarrow> sieve_state \<Rightarrow> error + sieve_state" where
  "sieve_small SMALL_K k (tbl, prime_p, next_multiple_t) =
     (if k \<le> SMALL_K then
        (case bs_test tbl k of
           Inl e \<Rightarrow> Inl e
         | Inr b \<Rightarrow>
             if b then
               (let p = k * 2 + 1; t = 2 * k * (k + 1) in
                case mark_small p SMALL_K t tbl of
                  Inl e \<Rightarrow> Inl e
                | Inr (tbl', t') \<Rightarrow>
                    sieve_small SMALL_K (k + 1) (tbl', prime_p @ [p], next_multiple_t @ [t']))
             else sieve_small SMALL_K (k + 1) (tbl, prime_p, next_multiple_t))
      else Inr (tbl, prime_p, next_multiple_t))"
  by pat_completeness auto
termination
  by (relation "measure (\<lambda>(SMALL_K, k, st). nat (SMALL_K + 1 - k))") auto

declare sieve_small.simps [simp del]

text \<open>The loop \<open>for (; t < segment_end; t += p) table.reset(t);\<close> of the segmented phase.\<close>

function mark_segment :: "int \<Rightarrow> int \<Rightarrow> int \<Rightarrow> bitset \<Rightarrow> error + (bitset \<times> int)" where
  "mark_segment p segment_end t tbl =
     (if t < segment_end then
        (case bs_reset tbl t of
           Inl e \<Rightarrow> Inl e
         | Inr tbl' \<Rightarrow> if p = 0 then Inl Diverges else mark_segment p segment_end (t + p) tbl')
      else Inr (tbl, t))"
  by pat_completeness auto
termination
  by (relation "measure (\<lambda>(p, segment_end, t, tbl). if 0 < p then nat (segment_end - t) else nat (t + 1))")
     (auto simp: bs_reset_def split: if_splits)

declare mark_segment.simps [simp del]

text \<open>
  The loop \<open>for (size_t i = 0; i < prime_p.size(); ++i)\<close> over the small primes, for one
  segment. \<open>next_multiple_t[i]\<close> is an unchecked vector access.
\<close>

function sieve_segment :: "int \<Rightarrow> nat \<Rightarrow> sieve_state \<Rightarrow> error + sieve_state" where
  "sieve_segment segment_end i (tbl, prime_p, next_multiple_t) =
     (if i < length prime_p then
        (if length next_multiple_t \<le> i then Inl OutOfRange
         else
           (let t = next_multiple_t ! i in
            if t < segment_end then
              (let p = prime_p ! i in
               case mark_segment p segment_end t tbl of
                 Inl e \<Rightarrow> Inl e
               | Inr (tbl', t') \<Rightarrow>
                   sieve_segment segment_end (i + 1) (tbl', prime_p, next_multiple_t[i := t']))
            else sieve_segment segment_end (i + 1) (tbl, prime_p, next_multiple_t)))
      else Inr (tbl, prime_p, next_multiple_t))"
  by pat_completeness auto
termination
  by (relation "measure (\<lambda>(segment_end, i, (tbl, prime_p, ts)). length prime_p - i)") auto

declare sieve_segment.simps [simp del]

definition window :: int where
  "window = 32 * 1000 * 16 div 2"

text \<open>The loop \<open>for (T segment_start = SMALL_K + 1; segment_start <= K; segment_start += window)\<close>.\<close>

function sieve_segments :: "int \<Rightarrow> int \<Rightarrow> sieve_state \<Rightarrow> error + sieve_state" where
  "sieve_segments K segment_start st =
     (if segment_start \<le> K then
        (let segment_end = min (segment_start + window) (K + 1) in
         case sieve_segment segment_end 0 st of
           Inl e \<Rightarrow> Inl e
         | Inr st' \<Rightarrow> sieve_segments K (segment_start + window) st')
      else Inr st)"
  by pat_completeness auto
termination
  by (relation "measure (\<lambda>(K, segment_start, st). nat (K + 1 - segment_start))")
     (auto simp: window_def)

declare sieve_segments.simps [simp del]

text \<open>
  The constructor \<open>prime_table(T N)\<close>, compiled with \<open>USE_SEGMENTED_SIEVE\<close>. The member
  initialisers run first, then the body with its \<open>assert(N >= 0)\<close>.
\<close>

definition prime_table_init :: "int \<Rightarrow> error + prime_table" where
  "prime_table_init N =
     (case initial_table N of
        Inl e \<Rightarrow> Inl e
      | Inr table0 \<Rightarrow>
          if \<not> N \<ge> 0 then Inl AssertionFailed
          else
            (let K = cdiv (N - 1) 2 in
             case bs_reset table0 0 of
               Inl e \<Rightarrow> Inl e
             | Inr table1 \<Rightarrow>
                 (let SMALL_N = isqrt N; SMALL_K = cdiv (SMALL_N - 1) 2 in
                  case estimated_small_count SMALL_N of
                    Inl e \<Rightarrow> Inl e
                  | Inr estimated \<Rightarrow>
                      (case vector_reserve estimated of
                         Inl e \<Rightarrow> Inl e
                       | Inr u \<Rightarrow>
                           (case vector_reserve estimated of
                              Inl e \<Rightarrow> Inl e
                            | Inr u' \<Rightarrow>
                                (case sieve_small SMALL_K 1 (table1, [], []) of
                                   Inl e \<Rightarrow> Inl e
                                 | Inr st \<Rightarrow>
                                     (case sieve_segments K (SMALL_K + 1) st of
                                        Inl e \<Rightarrow> Inl e
                                      | Inr (tbl, prime_p, next_multiple_t) \<Rightarrow>
                                          Inr \<lparr>limit = N, table = tbl\<rparr>)))))))"

subsection \<open>Primality queries\<close>

definition test_odd :: "prime_table \<Rightarrow> int \<Rightarrow> error + bool" where
  "test_odd T n =
     (if \<not> (n > 0 \<and> cmod n 2 \<noteq> 0) then Inl AssertionFailed
      else bs_test (table T) (cdiv n 2))"

definition test :: "prime_table \<Rightarrow> int \<Rightarrow> error + bool" where
  "test T n =
     (if \<not> (n \<ge> 1 \<and> n \<le> limit T) then Inl AssertionFailed
      else if n = 1 then Inr False
      else if n = 2 then Inr True
      else if cmod n 2 = 0 then Inr False
      else test_odd T n)"

subsection \<open>The iterator\<close>

text \<open>
  A \<open>prime_iterator\<close> holds a reference to its table, which never changes after
  construction, and the value \<open>_current\<close>; \<open>0\<close> is the end state.
\<close>

record prime_iterator =
  table_ref :: prime_table
  current :: int

definition begin_it :: "prime_table \<Rightarrow> prime_iterator" where
  "begin_it T = \<lparr>table_ref = T, current = 2\<rparr>"

definition end_it :: "prime_table \<Rightarrow> prime_iterator" where
  "end_it T = \<lparr>table_ref = T, current = 0\<rparr>"

definition deref :: "prime_iterator \<Rightarrow> int" where
  "deref it = current it"

definition equal_it :: "prime_iterator \<Rightarrow> prime_iterator \<Rightarrow> bool" where
  "equal_it a b = (current a = 0 \<and> current b = 0)"

definition not_equal_it :: "prime_iterator \<Rightarrow> prime_iterator \<Rightarrow> bool" where
  "not_equal_it a b = (\<not> equal_it a b)"

text \<open>
  The loop \<open>for (p = _current + 2; p <= _table.limit(); p += 2)\<close> of \<open>operator++\<close>, which
  leaves at the first \<open>p\<close> with \<open>test_odd(p)\<close>. It returns the final \<open>p\<close>. The two
  additions are in \<open>T\<close>: the first is in \<open>increment\<close>, the second here.
\<close>

function scan :: "prime_table \<Rightarrow> int \<Rightarrow> error + int" where
  "scan T p =
     (if p \<le> limit T then
        (case test_odd T p of
           Inl e \<Rightarrow> Inl e
         | Inr b \<Rightarrow>
             if b then Inr p
             else (case T_add p 2 of Inl e \<Rightarrow> Inl e | Inr p' \<Rightarrow> scan T p'))
      else Inr p)"
  by pat_completeness auto
termination
  by (relation "measure (\<lambda>(T, p). nat (limit T + 1 - p))")
     (auto simp: T_add_def split: if_splits)

declare scan.simps [simp del]

definition increment :: "prime_iterator \<Rightarrow> error + prime_iterator" where
  "increment it =
     (if \<not> current it \<noteq> 0 then Inl AssertionFailed
      else
        (case (if current it = 2 then Inr 3
               else (case T_add (current it) 2 of
                       Inl e \<Rightarrow> Inl e
                     | Inr p0 \<Rightarrow> scan (table_ref it) p0)) of
           Inl e \<Rightarrow> Inl e
         | Inr p \<Rightarrow> Inr (it\<lparr>current := (if p \<le> limit (table_ref it) then p else 0)\<rparr>)))"


text \<open>
  The client loop \<open>while (it != end() && *it < n) ++it;\<close> of \<open>lower_bound\<close> and the
  walk \<open>for (it = begin(); it != end(); ++it)\<close> end because \<open>operator++\<close> moves a
  cursor to a larger value or to the end state.
\<close>

lemma T_add_Inr: "T_add a b = Inr c \<longleftrightarrow> c = a + b \<and> T_min \<le> a + b \<and> a + b \<le> T_max"
  by (auto simp: T_add_def)

lemma scan_ge: "scan T p = Inr q \<Longrightarrow> p \<le> q"
proof (induction T p rule: scan.induct)
  case (1 T p)
  note unf = scan.simps[of T p]
  show ?case
  proof (cases "p \<le> limit T")
    case False
    with "1.prems" unf show ?thesis by simp
  next
    case True
    show ?thesis
    proof (cases "test_odd T p")
      case (Inl e)
      with True "1.prems" unf show ?thesis by simp
    next
      case (Inr b)
      show ?thesis
      proof (cases b)
        case True
        with \<open>p \<le> limit T\<close> Inr "1.prems" unf show ?thesis by simp
      next
        case False
        with \<open>p \<le> limit T\<close> Inr "1.prems" unf
        have r: "(case T_add p 2 of Inl e \<Rightarrow> Inl e | Inr p' \<Rightarrow> scan T p') = Inr q" by simp
        then obtain p' where p': "T_add p 2 = Inr p'" "scan T p' = Inr q"
          by (cases "T_add p 2") auto
        from "1.IH"[OF \<open>p \<le> limit T\<close> Inr False p'] p'(1) show ?thesis
          by (simp add: T_add_Inr)
      qed
    qed
  qed
qed

definition steps_left :: "prime_iterator \<Rightarrow> nat" where
  "steps_left it = (if current it = 0 then 0 else 1 + nat (limit (table_ref it) + 1 - current it))"

lemma increment_steps_left:
  assumes "increment it = Inr it'"
  shows "steps_left it' < steps_left it"
proof -
  from assms have c0: "current it \<noteq> 0" by (auto simp: increment_def split: if_splits)
  from assms c0 obtain p where
    p: "(if current it = 2 then Inr 3
         else (case T_add (current it) 2 of
                 Inl e \<Rightarrow> Inl e
               | Inr p0 \<Rightarrow> scan (table_ref it) p0)) = Inr p"
    and it': "it' = it\<lparr>current := (if p \<le> limit (table_ref it) then p else 0)\<rparr>"
    by (auto simp: increment_def split: sum.splits)
  have "current it < p"
  proof (cases "current it = 2")
    case True with p show ?thesis by simp
  next
    case False
    with p obtain p0 where p0: "T_add (current it) 2 = Inr p0" "scan (table_ref it) p0 = Inr p"
      by (cases "T_add (current it) 2") auto
    from scan_ge[OF p0(2)] p0(1) show ?thesis by (simp add: T_add_Inr)
  qed
  then show ?thesis using c0 it' by (auto simp: steps_left_def)
qed

function lower_bound_loop :: "prime_table \<Rightarrow> int \<Rightarrow> prime_iterator \<Rightarrow> error + prime_iterator" where
  "lower_bound_loop T n it =
     (if not_equal_it it (end_it T) \<and> deref it < n then
        (case increment it of
           Inl e \<Rightarrow> Inl e
         | Inr it' \<Rightarrow> lower_bound_loop T n it')
      else Inr it)"
  by pat_completeness auto
termination
  by (relation "measure (\<lambda>(T, n, it). steps_left it)") (auto simp: increment_steps_left)

declare lower_bound_loop.simps [simp del]

definition lower_bound :: "prime_table \<Rightarrow> int \<Rightarrow> error + prime_iterator" where
  "lower_bound T n = lower_bound_loop T n (begin_it T)"

function enumerate_from :: "prime_table \<Rightarrow> prime_iterator \<Rightarrow> error + int list" where
  "enumerate_from T it =
     (if not_equal_it it (end_it T) then
        (case increment it of
           Inl e \<Rightarrow> Inl e
         | Inr it' \<Rightarrow>
             (case enumerate_from T it' of
                Inl e \<Rightarrow> Inl e
              | Inr vs \<Rightarrow> Inr (deref it # vs)))
      else Inr [])"
  by pat_completeness auto
termination
  by (relation "measure (\<lambda>(T, it). steps_left it)") (auto simp: increment_steps_left)

declare enumerate_from.simps [simp del]

text \<open>
  The cursors a client can obtain from a table: from \<open>begin()\<close>, from
  \<open>lower_bound(n)\<close>, and from any of these by \<open>operator++\<close>.
\<close>

inductive reachable :: "prime_table \<Rightarrow> prime_iterator \<Rightarrow> bool" for T :: prime_table where
  from_begin: "reachable T (begin_it T)"
| from_lower_bound: "lower_bound T n = Inr it \<Longrightarrow> reachable T it"
| by_increment: "reachable T it \<Longrightarrow> increment it = Inr it' \<Longrightarrow> reachable T it'"

subsection \<open>The reference: primality by trial division\<close>

definition trial_prime :: "int \<Rightarrow> bool" where
  "trial_prime n = (2 \<le> n \<and> list_all (\<lambda>d. n mod d \<noteq> 0) [2..n - 1])"

subsection \<open>The invariant of the sieve\<close>

text \<open>
  The odd number \<open>2 * i + 1\<close> has the bit of index \<open>i\<close>. A store is \<open>sound\<close> when
  no bit of a prime has been reset. A small prime \<open>p = 2 * q + 1\<close> crosses out the
  indices \<open>2 * q * (q + 1) + c * p\<close>, which stand for \<open>p * (p + 2 * c)\<close>; its entry
  \<open>t\<close> of \<open>next_multiple_t\<close> is one of them, and every one before \<open>t\<close> has been
  reset already.
\<close>

definition sound :: "bitset \<Rightarrow> bool" where
  "sound tbl = (\<forall>i<length tbl. trial_prime (2 * int i + 1) \<longrightarrow> tbl ! i)"

definition cursor_ok :: "bitset \<Rightarrow> int \<Rightarrow> int \<Rightarrow> bool" where
  "cursor_ok tbl p t =
     (\<exists>q c. 1 \<le> q \<and> 0 \<le> c \<and> p = 2 * q + 1 \<and> t = 2 * q * (q + 1) + c * p
        \<and> (\<forall>c'. 0 \<le> c' \<and> c' < c \<and> 2 * q * (q + 1) + c' * p < bs_size tbl
               \<longrightarrow> \<not> tbl ! nat (2 * q * (q + 1) + c' * p)))"

definition sieve_inv :: "sieve_state \<Rightarrow> bool" where
  "sieve_inv st =
     (case st of (tbl, ps, ts) \<Rightarrow>
        0 < length tbl \<and> \<not> tbl ! 0 \<and> sound tbl \<and> length ts = length ps
        \<and> (\<forall>m<length ps. cursor_ok tbl (ps ! m) (ts ! m)))"

text \<open>What the queries and the iterator need of a table.\<close>

definition table_ok :: "prime_table \<Rightarrow> bool" where
  "table_ok T =
     (4 \<le> limit T \<and> limit T < T_max
      \<and> bs_size (table T) = (limit T + 1) div 2
      \<and> (\<forall>j. 1 \<le> j \<and> 2 * j + 1 \<le> limit T \<longrightarrow> table T ! nat j = trial_prime (2 * j + 1)))"

subsection \<open>Reference notions of the spec\<close>

text \<open>
  Modelled from the spec's words, to compare with \<open>initial_table\<close>: the size
  \<open>\<lceil>(N+1)/2\<rceil>\<close> that the spec gives the bit store.
\<close>

definition spec_store_size :: "int \<Rightarrow> int" where
  "spec_store_size N = \<lceil>real_of_int (N + 1) / 2\<rceil>"

text \<open>
  \<open>p\<close> is the \<open>n\<close>-th prime: it is prime, and \<open>n\<close> primes lie in \<open>[2, p]\<close>.
\<close>

definition is_nth_prime :: "int \<Rightarrow> int \<Rightarrow> bool" where
  "is_nth_prime n p = (trial_prime p \<and> int (length (filter trial_prime [2..p])) = n)"

section \<open>Arithmetic\<close>

lemma cdiv_nonneg: "0 \<le> a \<Longrightarrow> 0 < b \<Longrightarrow> cdiv a b = a div b"
  by (cases "a = 0") (simp_all add: cdiv_def)

lemma cdiv_minus1: "cdiv (- 1) 2 = 0"
  by (simp add: cdiv_def)

lemma cmod_nonneg: "0 \<le> a \<Longrightarrow> 0 < b \<Longrightarrow> cmod a b = a mod b"
  by (simp add: cmod_def cdiv_nonneg minus_div_mult_eq_mod)

lemma trial_prime_iff:
  "trial_prime n \<longleftrightarrow> 2 \<le> n \<and> (\<forall>d. 2 \<le> d \<and> d < n \<longrightarrow> \<not> d dvd n)"
  by (auto simp: trial_prime_def list_all_iff dvd_eq_mod_eq_0)

lemma sqrt_floor_bounds: "sqrt_floor n * sqrt_floor n \<le> n \<and> n < (sqrt_floor n + 1) * (sqrt_floor n + 1)"
  by (induction n) (auto simp: Let_def)

lemma isqrt_bounds:
  assumes "0 \<le> x"
  shows "0 \<le> isqrt x" "isqrt x * isqrt x \<le> x" "x < (isqrt x + 1) * (isqrt x + 1)"
proof -
  let ?r = "sqrt_floor (nat x)"
  have "?r * ?r \<le> nat x" "nat x < (?r + 1) * (?r + 1)"
    using sqrt_floor_bounds[of "nat x"] by auto
  then have "int (?r * ?r) \<le> x" "x < int ((?r + 1) * (?r + 1))"
    using assms by linarith+
  then show "isqrt x * isqrt x \<le> x" "x < (isqrt x + 1) * (isqrt x + 1)"
    by (simp_all add: isqrt_def algebra_simps)
  show "0 \<le> isqrt x" by (simp add: isqrt_def)
qed

lemma prime_factor_below_sqrt:
  "2 \<le> n \<Longrightarrow> \<not> trial_prime n \<Longrightarrow> \<exists>q. trial_prime q \<and> q dvd n \<and> q * q \<le> n"
proof (induction "nat n" arbitrary: n rule: less_induct)
  case less
  from less.prems obtain d where d: "2 \<le> d" "d < n" "d dvd n"
    by (auto simp: trial_prime_iff)
  then obtain e where e: "n = d * e" by (auto simp: dvd_def)
  with d less.prems have e2: "2 \<le> e" "e < n"
  proof -
    have "0 < e" using d less.prems e by (simp add: zero_less_mult_iff)
    have "e \<noteq> 1" using d e by auto
    with \<open>0 < e\<close> show "2 \<le> e" by linarith
    have "1 * e < d * e" using d \<open>0 < e\<close> by (intro mult_strict_right_mono) auto
    then show "e < n" using e by simp
  qed
  define a where "a = min d e"
  define b where "b = max d e"
  have ab: "n = a * b" "2 \<le> a" "a \<le> b" "a < n"
    using e d e2 by (auto simp: a_def b_def min_def max_def mult.commute)
  have aa: "a * a \<le> n" using ab by (simp add: mult_left_mono)
  show ?case
  proof (cases "trial_prime a")
    case True
    with ab aa show ?thesis by auto
  next
    case False
    have "nat a < nat n" using ab by auto
    from less.hyps[OF this \<open>2 \<le> a\<close> False] obtain q where q: "trial_prime q" "q dvd a" "q * q \<le> a"
      by auto
    moreover have "a dvd n" using ab by simp
    moreover have "a \<le> n" using ab by simp
    ultimately have "q dvd n" "q * q \<le> n" by (auto intro: dvd_trans)
    with q show ?thesis by auto
  qed
qed

lemma product_not_prime: "2 \<le> p \<Longrightarrow> 2 \<le> m \<Longrightarrow> \<not> trial_prime (p * m)"
proof -
  assume p: "2 \<le> p" and m: "2 \<le> m"
  have "1 * p < m * p" using p m by (intro mult_strict_right_mono) auto
  then have "p < p * m" by (simp add: mult.commute)
  moreover have "p dvd p * m" by simp
  ultimately show ?thesis using p by (auto simp: trial_prime_iff)
qed

text \<open>An odd composite number is \<open>p * (p + 2 * c)\<close> for an odd prime \<open>p = 2 * q + 1\<close>.\<close>

lemma odd_composite_factor:
  assumes "1 \<le> j" "\<not> trial_prime (2 * j + 1)"
  shows "\<exists>q c. 1 \<le> q \<and> 0 \<le> c \<and> trial_prime (2 * q + 1) \<and> (2 * q + 1) * (2 * q + 1) \<le> 2 * j + 1
            \<and> j = 2 * q * (q + 1) + c * (2 * q + 1)"
proof -
  let ?n = "2 * j + 1"
  from assms obtain p where p: "trial_prime p" "p dvd ?n" "p * p \<le> ?n"
    using prime_factor_below_sqrt[of ?n] by auto
  then have p2: "2 \<le> p" by (simp add: trial_prime_iff)
  have "odd ?n" by simp
  with p(2) have "odd p" using dvd_trans by blast
  then obtain q where q: "p = 2 * q + 1" by (auto elim: oddE)
  with p2 have q1: "1 \<le> q" by simp
  from p(2) obtain m where m: "?n = p * m" by (auto simp: dvd_def)
  have "odd m" using \<open>odd ?n\<close> m by (metis even_mult_iff)
  have "p \<le> m"
  proof (rule ccontr)
    assume "\<not> p \<le> m"
    then have "m < p" by simp
    then have "p * m < p * p" using p2 by (intro mult_strict_left_mono) auto
    with p(3) m show False by simp
  qed
  moreover have "even (m - p)" using \<open>odd m\<close> \<open>odd p\<close> by simp
  ultimately obtain c where c: "m = p + 2 * c" "0 \<le> c"
  proof -
    assume pm: "p \<le> m" and ev: "even (m - p)" and that: "\<And>c. m = p + 2 * c \<Longrightarrow> 0 \<le> c \<Longrightarrow> thesis"
    from ev obtain c where "m - p = 2 * c" by (elim evenE)
    with pm have "m = p + 2 * c" "0 \<le> c" by auto
    then show thesis by (rule that)
  qed
  have "2 * j + 1 = (2 * q + 1) * (2 * q + 1 + 2 * c)" using m q c by simp
  then have "j = 2 * q * (q + 1) + c * (2 * q + 1)" by (simp add: algebra_simps)
  with q1 c p q show ?thesis by blast
qed

section \<open>The marking loops\<close>

lemma mark_segment_result:
  assumes "0 < p" "0 \<le> t" "stop \<le> bs_size tbl"
  shows "\<exists>tbl' c. mark_segment p stop t tbl = Inr (tbl', t + c * p) \<and> 0 \<le> c
           \<and> length tbl' = length tbl \<and> stop \<le> t + c * p
           \<and> (\<forall>c'. 0 \<le> c' \<and> c' < c \<longrightarrow> t + c' * p < stop)
           \<and> (\<forall>i<length tbl. tbl' ! i = (tbl ! i \<and> \<not> (\<exists>c'. 0 \<le> c' \<and> c' < c \<and> int i = t + c' * p)))"
  using assms
proof (induction p stop t tbl rule: mark_segment.induct)
  case (1 p stop t tbl)
  show ?case
  proof (cases "t < stop")
    case False
    then have "mark_segment p stop t tbl = Inr (tbl, t + 0 * p)"
      by (simp add: mark_segment.simps[of p stop t tbl])
    moreover have "stop \<le> t + 0 * p" using False by simp
    ultimately show ?thesis by (intro exI[of _ tbl] exI[of _ 0]) auto
  next
    case True
    define tbl1 where "tbl1 = tbl[nat t := False]"
    have r: "bs_reset tbl t = Inr tbl1"
      using True 1 by (simp add: bs_reset_def tbl1_def)
    have p0: "p \<noteq> 0" using 1 by simp
    have "\<exists>tbl' c. mark_segment p stop (t + p) tbl1 = Inr (tbl', t + p + c * p) \<and> 0 \<le> c
           \<and> length tbl' = length tbl1 \<and> stop \<le> t + p + c * p
           \<and> (\<forall>c'. 0 \<le> c' \<and> c' < c \<longrightarrow> t + p + c' * p < stop)
           \<and> (\<forall>i<length tbl1. tbl' ! i = (tbl1 ! i \<and> \<not> (\<exists>c'. 0 \<le> c' \<and> c' < c \<and> int i = t + p + c' * p)))"
      using "1.IH"[OF True r p0] "1.prems" by (simp add: tbl1_def bs_size_def)
    then obtain tbl' c where
      m: "mark_segment p stop (t + p) tbl1 = Inr (tbl', t + p + c * p)" and c0: "0 \<le> c"
      and len: "length tbl' = length tbl1" and stop: "stop \<le> t + p + c * p"
      and below: "\<forall>c'. 0 \<le> c' \<and> c' < c \<longrightarrow> t + p + c' * p < stop"
      and bits: "\<forall>i<length tbl1. tbl' ! i = (tbl1 ! i \<and> \<not> (\<exists>c'. 0 \<le> c' \<and> c' < c \<and> int i = t + p + c' * p))"
      by blast
    have eq: "t + p + c * p = t + (c + 1) * p" by (simp add: algebra_simps)
    have res: "mark_segment p stop t tbl = Inr (tbl', t + (c + 1) * p)"
      using True r p0 m eq by (simp add: mark_segment.simps[of p stop t tbl])
    have below': "\<forall>c'. 0 \<le> c' \<and> c' < c + 1 \<longrightarrow> t + c' * p < stop"
    proof (intro allI impI)
      fix c' assume c': "0 \<le> c' \<and> c' < c + 1"
      show "t + c' * p < stop"
      proof (cases "c' = 0")
        case True then show ?thesis using \<open>t < stop\<close> by simp
      next
        case False
        then have "0 \<le> c' - 1 \<and> c' - 1 < c" using c' by auto
        then have "t + p + (c' - 1) * p < stop" using below by blast
        then show ?thesis by (simp add: algebra_simps)
      qed
    qed
    have bits': "\<forall>i<length tbl. tbl' ! i = (tbl ! i \<and> \<not> (\<exists>c'. 0 \<le> c' \<and> c' < c + 1 \<and> int i = t + c' * p))"
    proof (intro allI impI)
      fix i assume i: "i < length tbl"
      have shift: "(\<exists>c'. 0 \<le> c' \<and> c' < c + 1 \<and> int i = t + c' * p)
                   \<longleftrightarrow> int i = t \<or> (\<exists>c'. 0 \<le> c' \<and> c' < c \<and> int i = t + p + c' * p)"
      proof
        assume "\<exists>c'. 0 \<le> c' \<and> c' < c + 1 \<and> int i = t + c' * p"
        then obtain c' where c': "0 \<le> c'" "c' < c + 1" "int i = t + c' * p" by blast
        show "int i = t \<or> (\<exists>c'. 0 \<le> c' \<and> c' < c \<and> int i = t + p + c' * p)"
        proof (cases "c' = 0")
          case True with c' show ?thesis by simp
        next
          case False
          then have "0 \<le> c' - 1 \<and> c' - 1 < c \<and> int i = t + p + (c' - 1) * p"
            using c' by (auto simp: algebra_simps)
          then show ?thesis by blast
        qed
      next
        assume "int i = t \<or> (\<exists>c'. 0 \<le> c' \<and> c' < c \<and> int i = t + p + c' * p)"
        then show "\<exists>c'. 0 \<le> c' \<and> c' < c + 1 \<and> int i = t + c' * p"
        proof
          assume "int i = t"
          then have "0 \<le> (0::int) \<and> 0 < c + 1 \<and> int i = t + 0 * p" using c0 by simp
          then show ?thesis by blast
        next
          assume "\<exists>c'. 0 \<le> c' \<and> c' < c \<and> int i = t + p + c' * p"
          then obtain c' where "0 \<le> c'" "c' < c" "int i = t + p + c' * p" by blast
          then have "0 \<le> c' + 1 \<and> c' + 1 < c + 1 \<and> int i = t + (c' + 1) * p"
            by (auto simp: algebra_simps)
          then show ?thesis by blast
        qed
      qed
      have t1: "tbl1 ! i = (tbl ! i \<and> int i \<noteq> t)"
      proof (cases "int i = t")
        case True
        then have "nat t = i" by simp
        then show ?thesis using i True by (simp add: tbl1_def)
      next
        case False
        then have "nat t \<noteq> i" using "1.prems" by auto
        then show ?thesis using False by (simp add: tbl1_def)
      qed
      have "tbl' ! i = (tbl1 ! i \<and> \<not> (\<exists>c'. 0 \<le> c' \<and> c' < c \<and> int i = t + p + c' * p))"
        using bits i by (simp add: tbl1_def)
      then show "tbl' ! i = (tbl ! i \<and> \<not> (\<exists>c'. 0 \<le> c' \<and> c' < c + 1 \<and> int i = t + c' * p))"
        unfolding shift t1 by blast
    qed
    have "0 \<le> c + 1" using c0 by simp
    moreover have "length tbl' = length tbl" using len by (simp add: tbl1_def)
    moreover have "stop \<le> t + (c + 1) * p" using stop eq by simp
    ultimately show ?thesis using res below' bits' by blast
  qed
qed

lemma mark_small_eq: "mark_small p SMALL_K t tbl = mark_segment p (SMALL_K + 1) t tbl"
proof (induction p SMALL_K t tbl rule: mark_small.induct)
  case (1 p SMALL_K t tbl)
  note unf = mark_small.simps[of p SMALL_K t tbl] mark_segment.simps[of p "SMALL_K + 1" t tbl]
  show ?case
  proof (cases "t \<le> SMALL_K")
    case True
    then have lt: "t < SMALL_K + 1" by simp
    show ?thesis
    proof (cases "bs_reset tbl t")
      case (Inl e)
      then show ?thesis using True lt by (simp add: unf)
    next
      case (Inr tbl')
      then show ?thesis using True lt "1.IH"[OF True Inr] unfolding unf by auto
    qed
  next
    case False
    then show ?thesis by (simp add: unf)
  qed
qed

section \<open>The sieve\<close>

lemma cursor_ok_mono:
  assumes "cursor_ok tbl p t" "length tbl' = length tbl" "\<forall>i<length tbl. tbl' ! i \<longrightarrow> tbl ! i"
  shows "cursor_ok tbl' p t"
proof -
  from assms(1) obtain q c where qc: "1 \<le> q" "0 \<le> c" "p = 2 * q + 1" "t = 2 * q * (q + 1) + c * p"
    and cl: "\<forall>c'. 0 \<le> c' \<and> c' < c \<and> 2 * q * (q + 1) + c' * p < bs_size tbl
               \<longrightarrow> \<not> tbl ! nat (2 * q * (q + 1) + c' * p)"
    unfolding cursor_ok_def by blast
  have "\<forall>c'. 0 \<le> c' \<and> c' < c \<and> 2 * q * (q + 1) + c' * p < bs_size tbl'
               \<longrightarrow> \<not> tbl' ! nat (2 * q * (q + 1) + c' * p)"
  proof (intro allI impI)
    fix c' assume a: "0 \<le> c' \<and> c' < c \<and> 2 * q * (q + 1) + c' * p < bs_size tbl'"
    let ?j = "2 * q * (q + 1) + c' * p"
    have "0 \<le> ?j" using qc a by simp
    with a have "nat ?j < length tbl" using assms(2) by (auto simp: bs_size_def nat_less_iff)
    moreover have "\<not> tbl ! nat ?j" using cl a assms(2) by (simp add: bs_size_def)
    ultimately show "\<not> tbl' ! nat ?j" using assms(3) by blast
  qed
  with qc show ?thesis unfolding cursor_ok_def by blast
qed

lemma mark_step:
  assumes snd: "sound tbl" and cur: "cursor_ok tbl p t" and stop: "stop \<le> bs_size tbl"
  shows "\<exists>tbl' t'. mark_segment p stop t tbl = Inr (tbl', t') \<and> length tbl' = length tbl
           \<and> stop \<le> t' \<and> t \<le> t' \<and> sound tbl' \<and> cursor_ok tbl' p t'
           \<and> (\<forall>i<length tbl. tbl' ! i \<longrightarrow> tbl ! i)"
proof -
  from cur obtain q c where qc: "1 \<le> q" "0 \<le> c" "p = 2 * q + 1" "t = 2 * q * (q + 1) + c * p"
    and cl: "\<forall>c'. 0 \<le> c' \<and> c' < c \<and> 2 * q * (q + 1) + c' * p < bs_size tbl
               \<longrightarrow> \<not> tbl ! nat (2 * q * (q + 1) + c' * p)"
    unfolding cursor_ok_def by blast
  have p3: "3 \<le> p" using qc by simp
  have t0: "0 \<le> t" using qc by simp
  from mark_segment_result[of p t stop tbl] p3 t0 stop
  obtain tbl' d where
    res: "mark_segment p stop t tbl = Inr (tbl', t + d * p)" and d0: "0 \<le> d"
    and len: "length tbl' = length tbl" and st: "stop \<le> t + d * p"
    and below: "\<forall>c'. 0 \<le> c' \<and> c' < d \<longrightarrow> t + c' * p < stop"
    and bits: "\<forall>i<length tbl. tbl' ! i = (tbl ! i \<and> \<not> (\<exists>c'. 0 \<le> c' \<and> c' < d \<and> int i = t + c' * p))"
    by auto
  have mono: "\<forall>i<length tbl. tbl' ! i \<longrightarrow> tbl ! i" using bits by blast
  have le: "t \<le> t + d * p" using d0 p3 by simp
  have snd': "sound tbl'"
    unfolding sound_def
  proof (intro allI impI)
    fix i assume i: "i < length tbl'" and pr: "trial_prime (2 * int i + 1)"
    have "tbl ! i" using snd i pr len by (simp add: sound_def)
    moreover have "\<not> (\<exists>c'. 0 \<le> c' \<and> c' < d \<and> int i = t + c' * p)"
    proof
      assume "\<exists>c'. 0 \<le> c' \<and> c' < d \<and> int i = t + c' * p"
      then obtain c' where c': "0 \<le> c'" "int i = t + c' * p" by blast
      have "2 * int i + 1 = p * (p + 2 * (c + c'))"
        using c' qc by (simp add: algebra_simps)
      moreover have "2 \<le> p + 2 * (c + c')" using p3 qc c' by simp
      ultimately have "\<not> trial_prime (2 * int i + 1)"
        using product_not_prime[of p "p + 2 * (c + c')"] p3 by simp
      with pr show False by simp
    qed
    ultimately show "tbl' ! i" using bits i len by simp
  qed
  have cur': "cursor_ok tbl' p (t + d * p)"
    unfolding cursor_ok_def
  proof (rule exI[of _ q], rule exI[of _ "c + d"], intro conjI allI impI)
    show "1 \<le> q" using qc by simp
    show "0 \<le> c + d" using qc d0 by simp
    show "p = 2 * q + 1" using qc by simp
    show "t + d * p = 2 * q * (q + 1) + (c + d) * p" using qc by (simp add: algebra_simps)
    fix c' assume a: "0 \<le> c' \<and> c' < c + d \<and> 2 * q * (q + 1) + c' * p < bs_size tbl'"
    let ?j = "2 * q * (q + 1) + c' * p"
    have j0: "0 \<le> ?j" using qc a by simp
    with a have jl: "nat ?j < length tbl" using len by (auto simp: bs_size_def nat_less_iff)
    show "\<not> tbl' ! nat ?j"
    proof (cases "c' < c")
      case True
      then have "\<not> tbl ! nat ?j" using cl a len by (simp add: bs_size_def)
      with mono jl show ?thesis by blast
    next
      case False
      then have "0 \<le> c' - c \<and> c' - c < d \<and> int (nat ?j) = t + (c' - c) * p"
        using a j0 qc by (simp add: algebra_simps)
      then have "\<exists>e. 0 \<le> e \<and> e < d \<and> int (nat ?j) = t + e * p" by blast
      with bits jl show ?thesis by blast
    qed
  qed
  show ?thesis using res len st le snd' cur' mono by blast
qed

lemma sieve_inv_update:
  assumes inv: "sieve_inv (tbl, ps, ts)"
    and len: "length tbl' = length tbl" and mono: "\<forall>i<length tbl. tbl' ! i \<longrightarrow> tbl ! i"
    and snd: "sound tbl'"
    and lens: "length ts' = length ps'"
    and curs: "\<forall>m<length ps'. (m < length ps \<and> ps' ! m = ps ! m \<and> ts' ! m = ts ! m) \<or> cursor_ok tbl' (ps' ! m) (ts' ! m)"
  shows "sieve_inv (tbl', ps', ts')"
proof -
  from inv have a: "0 < length tbl" "\<not> tbl ! 0" "\<forall>m<length ps. cursor_ok tbl (ps ! m) (ts ! m)"
    by (auto simp: sieve_inv_def)
  have "\<not> tbl' ! 0" using a mono by blast
  moreover have "\<forall>m<length ps'. cursor_ok tbl' (ps' ! m) (ts' ! m)"
  proof (intro allI impI)
    fix m assume m: "m < length ps'"
    from curs m consider "m < length ps \<and> ps' ! m = ps ! m \<and> ts' ! m = ts ! m" | "cursor_ok tbl' (ps' ! m) (ts' ! m)"
      by blast
    then show "cursor_ok tbl' (ps' ! m) (ts' ! m)"
    proof cases
      case 1
      then have "cursor_ok tbl (ps' ! m) (ts' ! m)" using a(3) by auto
      then show ?thesis using len mono by (rule cursor_ok_mono)
    next
      case 2 then show ?thesis .
    qed
  qed
  moreover have "0 < length tbl'" using a(1) len by simp
  ultimately show ?thesis using snd lens by (simp add: sieve_inv_def)
qed

lemma sieve_small_inv:
  assumes "sieve_inv (tbl, ps, ts)" and "1 \<le> k" and "SK < bs_size tbl"
      and "\<forall>m<length ps. SK < ts ! m"
      and "\<forall>q. 1 \<le> q \<and> q < k \<and> trial_prime (2 * q + 1) \<longrightarrow> 2 * q + 1 \<in> set ps"
  shows "\<exists>tbl' ps' ts'. sieve_small SK k (tbl, ps, ts) = Inr (tbl', ps', ts')
           \<and> sieve_inv (tbl', ps', ts') \<and> length tbl' = length tbl
           \<and> (\<forall>m<length ps'. SK < ts' ! m)
           \<and> (\<forall>q. 1 \<le> q \<and> q \<le> SK \<and> trial_prime (2 * q + 1) \<longrightarrow> 2 * q + 1 \<in> set ps')"
  using assms
proof (induction "nat (SK + 1 - k)" arbitrary: k tbl ps ts rule: less_induct)
  case less
  note unf = sieve_small.simps[of SK k tbl ps ts]
  note inv = less.prems(1) and k1 = less.prems(2) and sz = less.prems(3)
    and beyond = less.prems(4) and found = less.prems(5)
  show ?case
  proof (cases "k \<le> SK")
    case False
    then have "sieve_small SK k (tbl, ps, ts) = Inr (tbl, ps, ts)" by (simp add: unf)
    moreover have "\<forall>q. 1 \<le> q \<and> q \<le> SK \<and> trial_prime (2 * q + 1) \<longrightarrow> 2 * q + 1 \<in> set ps"
      using found False by auto
    ultimately show ?thesis using inv beyond by simp
  next
    case True
    from inv have snd: "sound tbl" and lens: "length ts = length ps"
      and curs: "\<forall>m<length ps. cursor_ok tbl (ps ! m) (ts ! m)"
      by (auto simp: sieve_inv_def)
    have kin: "0 \<le> k" "k < bs_size tbl" "nat k < length tbl"
      using k1 True sz by (auto simp: bs_size_def)
    have tst: "bs_test tbl k = Inr (tbl ! nat k)" using kin by (simp add: bs_test_def)
    have less': "nat (SK + 1 - (k + 1)) < nat (SK + 1 - k)" using True by simp
    show ?thesis
    proof (cases "trial_prime (2 * k + 1)")
      case False
      from odd_composite_factor[OF k1 False] obtain q c where
        qc: "1 \<le> q" "0 \<le> c" "trial_prime (2 * q + 1)" "k = 2 * q * (q + 1) + c * (2 * q + 1)"
        by blast
      have "q * 1 < q * (2 * (q + 1))" using qc(1) by (intro mult_strict_left_mono) auto
      moreover have "0 \<le> c * (2 * q + 1)" using qc by simp
      ultimately have "q < k" using qc(4) by (simp add: algebra_simps)
      with found qc have "2 * q + 1 \<in> set ps" by blast
      then obtain m where m: "m < length ps" "ps ! m = 2 * q + 1" by (auto simp: in_set_conv_nth)
      from curs m obtain q' c' where
        c': "0 \<le> c'" "ps ! m = 2 * q' + 1" "ts ! m = 2 * q' * (q' + 1) + c' * (ps ! m)"
        and cl: "\<forall>e. 0 \<le> e \<and> e < c' \<and> 2 * q' * (q' + 1) + e * (ps ! m) < bs_size tbl
               \<longrightarrow> \<not> tbl ! nat (2 * q' * (q' + 1) + e * (ps ! m))"
        unfolding cursor_ok_def by blast
      have qq: "q' = q" using c'(2) m(2) by simp
      have "k < ts ! m" using beyond m True by auto
      then have "c * (2 * q + 1) < c' * (2 * q + 1)" using qc(4) c'(3) m(2) qq by simp
      then have "c < c'" using qc(1) by (simp add: mult_less_cancel_right)
      with cl qc kin qq m(2) have nb: "\<not> tbl ! nat k" by auto
      then have "sieve_small SK k (tbl, ps, ts) = sieve_small SK (k + 1) (tbl, ps, ts)"
        using True tst by (simp add: unf)
      moreover have "\<forall>q. 1 \<le> q \<and> q < k + 1 \<and> trial_prime (2 * q + 1) \<longrightarrow> 2 * q + 1 \<in> set ps"
      proof (intro allI impI)
        fix q assume a: "1 \<le> q \<and> q < k + 1 \<and> trial_prime (2 * q + 1)"
        with False have "q \<noteq> k" by auto
        with a have "1 \<le> q \<and> q < k \<and> trial_prime (2 * q + 1)" by simp
        with found show "2 * q + 1 \<in> set ps" by blast
      qed
      moreover have "1 \<le> k + 1" using k1 by simp
      ultimately show ?thesis
        using less.hyps[OF less' inv _ sz beyond, of] by simp
    next
      case pr: True
      define p where "p = k * 2 + 1"
      define t where "t = 2 * k * (k + 1)"
      have b: "tbl ! nat k" using snd kin pr by (simp add: sound_def)
      have "cursor_ok tbl p t"
        unfolding cursor_ok_def
      proof (rule exI[of _ k], rule exI[of _ 0], intro conjI allI impI)
        show "1 \<le> k" by (rule k1)
        show "(0::int) \<le> 0" by simp
        show "p = 2 * k + 1" by (simp add: p_def)
        show "t = 2 * k * (k + 1) + 0 * p" by (simp add: t_def)
        fix c' :: int assume "0 \<le> c' \<and> c' < 0 \<and> 2 * k * (k + 1) + c' * p < bs_size tbl"
        then have False by linarith
        then show "\<not> tbl ! nat (2 * k * (k + 1) + c' * p)" ..
      qed
      from mark_step[OF snd this, of "SK + 1"] sz
      obtain tbl' t' where
        res: "mark_segment p (SK + 1) t tbl = Inr (tbl', t')" and len: "length tbl' = length tbl"
        and st: "SK + 1 \<le> t'" and snd': "sound tbl'" and cur': "cursor_ok tbl' p t'"
        and mono: "\<forall>i<length tbl. tbl' ! i \<longrightarrow> tbl ! i"
        by auto
      have step: "sieve_small SK k (tbl, ps, ts) = sieve_small SK (k + 1) (tbl', ps @ [p], ts @ [t'])"
        using True tst b res by (simp add: unf mark_small_eq p_def t_def)
      have inv': "sieve_inv (tbl', ps @ [p], ts @ [t'])"
      proof (rule sieve_inv_update[OF inv len mono snd'])
        show "length (ts @ [t']) = length (ps @ [p])" using lens by simp
        show "\<forall>m<length (ps @ [p]). (m < length ps \<and> (ps @ [p]) ! m = ps ! m \<and> (ts @ [t']) ! m = ts ! m)
                \<or> cursor_ok tbl' ((ps @ [p]) ! m) ((ts @ [t']) ! m)"
          using cur' lens by (auto simp: nth_append)
      qed
      have sz': "SK < bs_size tbl'" using sz len by (simp add: bs_size_def)
      have beyond': "\<forall>m<length (ps @ [p]). SK < (ts @ [t']) ! m"
        using beyond st lens by (auto simp: nth_append)
      have found': "\<forall>q. 1 \<le> q \<and> q < k + 1 \<and> trial_prime (2 * q + 1) \<longrightarrow> 2 * q + 1 \<in> set (ps @ [p])"
      proof (intro allI impI)
        fix q assume a: "1 \<le> q \<and> q < k + 1 \<and> trial_prime (2 * q + 1)"
        show "2 * q + 1 \<in> set (ps @ [p])"
        proof (cases "q = k")
          case True then show ?thesis by (simp add: p_def)
        next
          case False
          with a have "1 \<le> q \<and> q < k \<and> trial_prime (2 * q + 1)" by simp
          with found show ?thesis by auto
        qed
      qed
      have "1 \<le> k + 1" using k1 by simp
      from less.hyps[OF less' inv' this sz' beyond' found'] step len
      show ?thesis by simp
    qed
  qed
qed

lemma sieve_segment_inv:
  assumes "sieve_inv (tbl, ps, ts)" and "e \<le> bs_size tbl"
      and "\<forall>m<length ps. m < i \<longrightarrow> e \<le> ts ! m"
  shows "\<exists>tbl' ts'. sieve_segment e i (tbl, ps, ts) = Inr (tbl', ps, ts')
           \<and> sieve_inv (tbl', ps, ts') \<and> length tbl' = length tbl
           \<and> (\<forall>m<length ps. e \<le> ts' ! m)"
  using assms
proof (induction "length ps - i" arbitrary: i tbl ts rule: less_induct)
  case less
  note unf = sieve_segment.simps[of e i tbl ps ts]
  note inv = less.prems(1) and sz = less.prems(2) and before = less.prems(3)
  from inv have snd: "sound tbl" and lens: "length ts = length ps"
    and curs: "\<forall>m<length ps. cursor_ok tbl (ps ! m) (ts ! m)"
    by (auto simp: sieve_inv_def)
  show ?case
  proof (cases "i < length ps")
    case False
    then have "sieve_segment e i (tbl, ps, ts) = Inr (tbl, ps, ts)" by (simp add: unf)
    moreover have "\<forall>m<length ps. e \<le> ts ! m" using before False by auto
    ultimately show ?thesis using inv by simp
  next
    case True
    then have less': "length ps - (i + 1) < length ps - i" by simp
    show ?thesis
    proof (cases "ts ! i < e")
      case False
      then have step: "sieve_segment e i (tbl, ps, ts) = sieve_segment e (i + 1) (tbl, ps, ts)"
        using True lens by (simp add: unf)
      have "\<forall>m<length ps. m < i + 1 \<longrightarrow> e \<le> ts ! m"
      proof (intro allI impI)
        fix m assume "m < length ps" "m < i + 1"
        then show "e \<le> ts ! m" using before False by (cases "m = i") auto
      qed
      from less.hyps[OF less' inv sz this] step show ?thesis by simp
    next
      case lt: True
      have "cursor_ok tbl (ps ! i) (ts ! i)" using curs True by simp
      from mark_step[OF snd this sz]
      obtain tbl' t' where
        res: "mark_segment (ps ! i) e (ts ! i) tbl = Inr (tbl', t')" and len: "length tbl' = length tbl"
        and st: "e \<le> t'" and snd': "sound tbl'" and cur': "cursor_ok tbl' (ps ! i) t'"
        and mono: "\<forall>i<length tbl. tbl' ! i \<longrightarrow> tbl ! i"
        by auto
      have step: "sieve_segment e i (tbl, ps, ts) = sieve_segment e (i + 1) (tbl', ps, ts[i := t'])"
        using True lens lt res by (simp add: unf)
      have inv': "sieve_inv (tbl', ps, ts[i := t'])"
      proof (rule sieve_inv_update[OF inv len mono snd'])
        show "length (ts[i := t']) = length ps" using lens by simp
        show "\<forall>m<length ps. (m < length ps \<and> ps ! m = ps ! m \<and> ts[i := t'] ! m = ts ! m)
                \<or> cursor_ok tbl' (ps ! m) (ts[i := t'] ! m)"
        proof (intro allI impI)
          fix m assume m: "m < length ps"
          show "(m < length ps \<and> ps ! m = ps ! m \<and> ts[i := t'] ! m = ts ! m)
                \<or> cursor_ok tbl' (ps ! m) (ts[i := t'] ! m)"
            using m cur' lens by (cases "m = i") auto
        qed
      qed
      have sz': "e \<le> bs_size tbl'" using sz len by (simp add: bs_size_def)
      have "\<forall>m<length ps. m < i + 1 \<longrightarrow> e \<le> ts[i := t'] ! m"
      proof (intro allI impI)
        fix m assume "m < length ps" "m < i + 1"
        then show "e \<le> ts[i := t'] ! m" using before st lens by (cases "m = i") auto
      qed
      from less.hyps[OF less' inv' sz' this] step len show ?thesis by simp
    qed
  qed
qed

lemma sieve_segments_inv:
  assumes "sieve_inv (tbl, ps, ts)" and "K + 1 = bs_size tbl"
      and "\<forall>m<length ps. min s (K + 1) \<le> ts ! m"
  shows "\<exists>tbl' ts'. sieve_segments K s (tbl, ps, ts) = Inr (tbl', ps, ts')
           \<and> sieve_inv (tbl', ps, ts') \<and> length tbl' = length tbl
           \<and> (\<forall>m<length ps. K + 1 \<le> ts' ! m)"
  using assms
proof (induction "nat (K + 1 - s)" arbitrary: s tbl ts rule: less_induct)
  case less
  note unf = sieve_segments.simps[of K s "(tbl, ps, ts)"]
  note inv = less.prems(1) and sz = less.prems(2) and low = less.prems(3)
  show ?case
  proof (cases "s \<le> K")
    case False
    then have "sieve_segments K s (tbl, ps, ts) = Inr (tbl, ps, ts)" by (simp add: unf)
    moreover have "min s (K + 1) = K + 1" using False by simp
    then have "\<forall>m<length ps. K + 1 \<le> ts ! m" using low by simp
    ultimately show ?thesis using inv by simp
  next
    case True
    define e where "e = min (s + window) (K + 1)"
    have w: "0 < window" by (simp add: window_def)
    have less': "nat (K + 1 - (s + window)) < nat (K + 1 - s)" using True w by simp
    have "e \<le> bs_size tbl" using sz by (simp add: e_def)
    from sieve_segment_inv[OF inv this, of 0]
    obtain tbl' ts' where
      seg: "sieve_segment e 0 (tbl, ps, ts) = Inr (tbl', ps, ts')"
      and inv': "sieve_inv (tbl', ps, ts')" and len: "length tbl' = length tbl"
      and low': "\<forall>m<length ps. e \<le> ts' ! m"
      by auto
    have step: "sieve_segments K s (tbl, ps, ts) = sieve_segments K (s + window) (tbl', ps, ts')"
      using True seg by (simp add: unf e_def Let_def)
    have sz': "K + 1 = bs_size tbl'" using sz len by (simp add: bs_size_def)
    have "\<forall>m<length ps. min (s + window) (K + 1) \<le> ts' ! m" using low' by (simp add: e_def)
    from less.hyps[OF less' inv' sz' this] step len show ?thesis by simp
  qed
qed

text \<open>The estimate of line 163 and the two \<open>reserve\<close> calls, for \<open>SMALL_N \<ge> 2\<close>.\<close>

lemma reserve_ok:
  assumes "2 \<le> S"
  shows "\<exists>n. estimated_small_count S = Inr n \<and> vector_reserve n = Inr ()"
proof -
  have "1 < real_of_int S" using assms by simp
  then have "0 < ln (real_of_int S)" by simp
  moreover have "0 < real_of_int S" using assms by simp
  ultimately have q: "0 \<le> real_of_int S / ln (real_of_int S)" by simp
  have "estimated_small_count S = Inr \<lfloor>real_of_int S / ln (real_of_int S)\<rfloor>"
    using assms by (simp add: estimated_small_count_def)
  moreover have "vector_reserve \<lfloor>real_of_int S / ln (real_of_int S)\<rfloor> = Inr ()"
    using q by (simp add: vector_reserve_def not_less)
  ultimately show ?thesis by blast
qed

lemma estimated_small_count_one: "estimated_small_count 1 = Inl UndefinedConversion"
  by (simp add: estimated_small_count_def)

text \<open>
  The largest values that the constructor computes in \<open>T\<close>: \<open>segment_start + window\<close>
  is at most \<open>K + window\<close>, and \<open>t + p\<close> is at most \<open>K + SMALL_N\<close>.
\<close>

lemma constructor_values_in_range:
  assumes "0 \<le> N" "N < T_max"
  shows "isqrt N \<le> 46340" and "(N - 1) div 2 + window + isqrt N \<le> T_max"
proof -
  have S: "0 \<le> isqrt N" "isqrt N * isqrt N \<le> N" using isqrt_bounds[OF assms(1)] by auto
  show a: "isqrt N \<le> 46340"
  proof (rule ccontr)
    assume "\<not> isqrt N \<le> 46340"
    then have "46341 \<le> isqrt N" by simp
    then have "46341 * 46341 \<le> isqrt N * isqrt N" by (intro mult_mono) auto
    with S(2) assms(2) show False by (simp add: T_max_def)
  qed
  have "(N - 1) div 2 \<le> 1073741822" using assms(2) by (simp add: T_max_def)
  with a show "(N - 1) div 2 + window + isqrt N \<le> T_max"
    by (simp add: window_def T_max_def)
qed

text \<open>What the constructor returns for a limit from 4 up to, but not including, \<open>T_max\<close>.\<close>

lemma prime_table_init_result:
  assumes "4 \<le> N" "N < T_max"
  shows "\<exists>tbl. prime_table_init N = Inr \<lparr>limit = N, table = tbl\<rparr>
           \<and> bs_size tbl = (N + 1) div 2 \<and> \<not> tbl ! 0
           \<and> (\<forall>j. 1 \<le> j \<and> 2 * j + 1 \<le> N \<longrightarrow> tbl ! nat j = trial_prime (2 * j + 1))"
proof -
  define L where "L = (N + 1) div 2"
  define K where "K = cdiv (N - 1) 2"
  define S where "S = isqrt N"
  define SK where "SK = cdiv (S - 1) 2"
  define table0 where "table0 = replicate (nat L) True"
  define table1 where "table1 = table0[0 := False]"
  have N1: "1 \<le> N" using assms(1) by simp
  have L1: "1 \<le> L" using N1 by (simp add: L_def)
  have K: "K = (N - 1) div 2" using N1 by (simp add: K_def cdiv_nonneg)
  have KL: "K + 1 = L" unfolding K L_def by presburger
  have S: "0 \<le> S" "S * S \<le> N" "N < (S + 1) * (S + 1)"
    using isqrt_bounds[of N] N1 by (simp_all add: S_def)
  have S2: "2 \<le> S"
  proof (rule ccontr)
    assume "\<not> 2 \<le> S"
    with S(1) have "S = 0 \<or> S = 1" by auto
    with S(3) assms(1) show False by auto
  qed
  then have S1: "1 \<le> S" by simp
  from reserve_ok[OF S2] obtain est where
    est: "estimated_small_count S = Inr est" "vector_reserve est = Inr ()" by blast
  have SKd: "SK = (S - 1) div 2" using S1 by (simp add: SK_def cdiv_nonneg)
  have SK0: "0 \<le> SK" using S1 SKd by simp
  have "S \<le> S * S" using S1 by (simp add: mult_le_cancel_left1)
  then have "S \<le> N" using S(2) by simp
  then have SKK: "SK \<le> K" unfolding SKd K by (intro zdiv_mono1) auto
  have "T_add N 1 = Inr (N + 1)" using N1 assms(2) by (simp add: T_add_def T_min_def)
  then have init: "initial_table N = Inr table0"
    using N1 by (simp add: initial_table_def bs_create_def cdiv_nonneg table0_def L_def)
  have len0: "length table0 = nat L" by (simp add: table0_def)
  have len1: "length table1 = nat L" by (simp add: table1_def len0)
  have sz1: "bs_size table1 = L" using L1 by (simp add: bs_size_def len1)
  have reset0: "bs_reset table0 0 = Inr table1"
    using L1 by (simp add: bs_reset_def bs_size_def len0 table1_def)
  have inv1: "sieve_inv (table1, [], [])"
    using L1 by (auto simp: sieve_inv_def len1 sound_def table1_def table0_def nth_list_update trial_prime_iff)
  have "SK < bs_size table1" using SKK KL sz1 by simp
  from sieve_small_inv[OF inv1 _ this, of 1]
  obtain tbl2 ps ts where
    small: "sieve_small SK 1 (table1, [], []) = Inr (tbl2, ps, ts)"
    and inv2: "sieve_inv (tbl2, ps, ts)" and len2: "length tbl2 = length table1"
    and beyond: "\<forall>m<length ps. SK < ts ! m"
    and found: "\<forall>q. 1 \<le> q \<and> q \<le> SK \<and> trial_prime (2 * q + 1) \<longrightarrow> 2 * q + 1 \<in> set ps"
    by auto
  have sz2: "K + 1 = bs_size tbl2" using KL sz1 len2 by (simp add: bs_size_def)
  have "\<forall>m<length ps. min (SK + 1) (K + 1) \<le> ts ! m" using beyond by auto
  from sieve_segments_inv[OF inv2 sz2 this]
  obtain tbl ts' where
    segs: "sieve_segments K (SK + 1) (tbl2, ps, ts) = Inr (tbl, ps, ts')"
    and inv3: "sieve_inv (tbl, ps, ts')" and len3: "length tbl = length tbl2"
    and fin: "\<forall>m<length ps. K + 1 \<le> ts' ! m"
    by auto
  have sz3: "bs_size tbl = L" using len3 sz2 KL by (simp add: bs_size_def)
  have res: "prime_table_init N = Inr \<lparr>limit = N, table = tbl\<rparr>"
    using N1 init reset0 est small segs
    by (simp add: prime_table_init_def K_def[symmetric] S_def[symmetric] SK_def[symmetric])
  from inv3 have snd: "sound tbl" and nz: "\<not> tbl ! 0"
    and curs: "\<forall>m<length ps. cursor_ok tbl (ps ! m) (ts' ! m)"
    by (auto simp: sieve_inv_def)
  have bits: "\<forall>j. 1 \<le> j \<and> 2 * j + 1 \<le> N \<longrightarrow> tbl ! nat j = trial_prime (2 * j + 1)"
  proof (intro allI impI)
    fix j assume j: "1 \<le> j \<and> 2 * j + 1 \<le> N"
    then have jK: "j \<le> K" unfolding K by presburger
    then have jl: "nat j < length tbl" "j < bs_size tbl" using j sz3 KL by (auto simp: bs_size_def)
    show "tbl ! nat j = trial_prime (2 * j + 1)"
    proof (cases "trial_prime (2 * j + 1)")
      case True
      then show ?thesis using snd jl j by (auto simp: sound_def)
    next
      case False
      from odd_composite_factor[of j] j False obtain q c where
        qc: "1 \<le> q" "0 \<le> c" "trial_prime (2 * q + 1)" "(2 * q + 1) * (2 * q + 1) \<le> 2 * j + 1"
          "j = 2 * q * (q + 1) + c * (2 * q + 1)"
        by blast
      have "2 * q + 1 \<le> S"
      proof (rule ccontr)
        assume "\<not> 2 * q + 1 \<le> S"
        then have a: "S + 1 \<le> 2 * q + 1" by simp
        have "(S + 1) * (S + 1) \<le> (2 * q + 1) * (2 * q + 1)"
          using a S(1) by (intro mult_mono) auto
        with qc(4) j S(3) show False by simp
      qed
      then have "q \<le> SK" unfolding SKd by simp
      with found qc have "2 * q + 1 \<in> set ps" by blast
      then obtain m where m: "m < length ps" "ps ! m = 2 * q + 1" by (auto simp: in_set_conv_nth)
      from curs m obtain q' c' where
        c': "0 \<le> c'" "ps ! m = 2 * q' + 1" "ts' ! m = 2 * q' * (q' + 1) + c' * (ps ! m)"
        and cl: "\<forall>e. 0 \<le> e \<and> e < c' \<and> 2 * q' * (q' + 1) + e * (ps ! m) < bs_size tbl
               \<longrightarrow> \<not> tbl ! nat (2 * q' * (q' + 1) + e * (ps ! m))"
        unfolding cursor_ok_def by blast
      have qq: "q' = q" using c'(2) m(2) by simp
      have "j < ts' ! m" using fin m jK by auto
      then have "c * (2 * q + 1) < c' * (2 * q + 1)" using qc(5) c'(3) m(2) qq by simp
      then have "c < c'" using qc(1) by (simp add: mult_less_cancel_right)
      with cl qc jl qq m(2) have "\<not> tbl ! nat j" by auto
      with False show ?thesis by simp
    qed
  qed
  show ?thesis using res sz3 nz bits by (auto simp: L_def)
qed

section \<open>The iterator\<close>

text \<open>The limits for which the constructor returns no table.\<close>

lemmas constructor_eval = prime_table_init_def initial_table_def T_add_def T_min_def T_max_def
  bs_create_def cdiv_def bs_reset_def bs_test_def bs_size_def isqrt_def eval_nat_numeral
  estimated_small_count_def vector_reserve_def sieve_small.simps sieve_segments.simps
  sieve_segment.simps mark_small.simps mark_segment.simps window_def

lemma prime_table_init_zero: "prime_table_init 0 = Inl OutOfRange"
  by (simp add: prime_table_init_def initial_table_def T_add_def T_min_def T_max_def
        bs_create_def cdiv_def bs_reset_def bs_size_def)

lemma prime_table_init_negative: "N < 0 \<Longrightarrow> \<exists>e. prime_table_init N = Inl e"
  by (cases "initial_table N") (simp_all add: prime_table_init_def)

lemma prime_table_init_1: "prime_table_init 1 = Inl UndefinedConversion"
  by (simp add: constructor_eval)

lemma prime_table_init_2: "prime_table_init 2 = Inl UndefinedConversion"
  by (simp add: constructor_eval)

lemma prime_table_init_3: "prime_table_init 3 = Inl UndefinedConversion"
  by (simp add: constructor_eval)

lemma prime_table_init_overflow: "T_max \<le> N \<Longrightarrow> prime_table_init N = Inl Overflow"
  by (simp add: prime_table_init_def initial_table_def T_add_def)

lemma prime_table_init_Inr:
  assumes "prime_table_init N = Inr T"
  shows "4 \<le> N \<and> N < T_max \<and> limit T = N \<and> table_ok T \<and> \<not> table T ! 0"
proof -
  have N4: "4 \<le> N"
  proof (rule ccontr)
    assume "\<not> 4 \<le> N"
    then consider "N < 0" | "N = 0" | "N = 1" | "N = 2" | "N = 3" by linarith
    then show False
      using assms prime_table_init_zero prime_table_init_negative[of N]
        prime_table_init_1 prime_table_init_2 prime_table_init_3
      by cases auto
  qed
  have NT: "N < T_max"
  proof (rule ccontr)
    assume "\<not> N < T_max"
    then have "prime_table_init N = Inl Overflow" by (simp add: prime_table_init_overflow)
    with assms show False by simp
  qed
  from prime_table_init_result[OF N4 NT] assms N4 NT show ?thesis
    by (auto simp: table_ok_def)
qed

lemma odd_index:
  assumes "odd p" "1 \<le> p" "p \<le> limit T" "bs_size (table T) = (limit T + 1) div 2"
  shows "test_odd T p = Inr (table T ! nat (p div 2))"
proof -
  have "cmod p 2 = 1" using assms by (simp add: cmod_nonneg odd_iff_mod_2_eq_one)
  moreover have "cdiv p 2 = p div 2" using assms by (simp add: cdiv_nonneg)
  moreover have "0 \<le> p div 2" using assms by simp
  moreover have "p div 2 < (limit T + 1) div 2" using assms(1,3) by presburger
  ultimately show ?thesis using assms by (simp add: test_odd_def bs_test_def)
qed

lemma odd_step_in_range:
  assumes "odd p" "1 \<le> p" "p < T_max"
  shows "T_add p 2 = Inr (p + 2)"
proof -
  have "p + 2 \<le> 2147483647" using assms(1,3) unfolding T_max_def by presburger
  then show ?thesis using assms(2) by (simp add: T_add_def T_min_def T_max_def)
qed

lemma scan_result:
  assumes "bs_size (table T) = (limit T + 1) div 2" "odd p" "1 \<le> p" "limit T < T_max"
  shows "\<exists>q. scan T p = Inr q \<and> p \<le> q \<and> odd q
           \<and> (q \<le> limit T \<longrightarrow> table T ! nat (q div 2))
           \<and> (\<forall>r. odd r \<and> p \<le> r \<and> r < q \<and> r \<le> limit T \<longrightarrow> \<not> table T ! nat (r div 2))"
  using assms
proof (induction "nat (limit T + 1 - p)" arbitrary: p rule: less_induct)
  case less
  note unf = scan.simps[of T p]
  show ?case
  proof (cases "p \<le> limit T")
    case False
    then have "scan T p = Inr p" by (simp add: unf)
    then show ?thesis using False less.prems by auto
  next
    case True
    have tst: "test_odd T p = Inr (table T ! nat (p div 2))"
      using odd_index[OF less.prems(2,3) True less.prems(1)] .
    show ?thesis
    proof (cases "table T ! nat (p div 2)")
      case b: True
      then have "scan T p = Inr p" using True tst by (simp add: unf)
      then show ?thesis using b less.prems by auto
    next
      case b: False
      have "T_add p 2 = Inr (p + 2)"
        using odd_step_in_range[OF less.prems(2,3)] True less.prems(4) by simp
      with b have step: "scan T p = scan T (p + 2)" using True tst by (simp add: unf)
      have "nat (limit T + 1 - (p + 2)) < nat (limit T + 1 - p)" using True by simp
      from less.hyps[OF this less.prems(1) _ _ less.prems(4)] less.prems(2,3)
      obtain q where q: "scan T (p + 2) = Inr q" "p + 2 \<le> q" "odd q"
        "q \<le> limit T \<longrightarrow> table T ! nat (q div 2)"
        "\<forall>r. odd r \<and> p + 2 \<le> r \<and> r < q \<and> r \<le> limit T \<longrightarrow> \<not> table T ! nat (r div 2)"
        by auto
      have "\<forall>r. odd r \<and> p \<le> r \<and> r < q \<and> r \<le> limit T \<longrightarrow> \<not> table T ! nat (r div 2)"
      proof (intro allI impI)
        fix r assume r: "odd r \<and> p \<le> r \<and> r < q \<and> r \<le> limit T"
        show "\<not> table T ! nat (r div 2)"
        proof (cases "r = p")
          case True with b show ?thesis by simp
        next
          case False
          with r less.prems(2) have "p + 2 \<le> r" by presburger
          with q(5) r show ?thesis by blast
        qed
      qed
      with q step show ?thesis by auto
    qed
  qed
qed

text \<open>The effect of \<open>operator++\<close> in terms of the bits of the table.\<close>

lemma increment_bits:
  assumes "bs_size (table (table_ref it)) = (limit (table_ref it) + 1) div 2"
    "odd (current it)" "- 1 \<le> current it"
    "limit (table_ref it) < T_max" "current it + 2 \<le> T_max"
  shows "\<exists>c. increment it = Inr (it\<lparr>current := c\<rparr>)
           \<and> (c = 0 \<or> (current it < c \<and> c \<le> limit (table_ref it) \<and> odd c
                          \<and> table (table_ref it) ! nat (c div 2)))
           \<and> (\<forall>r. odd r \<and> current it < r \<and> r \<le> limit (table_ref it) \<and> (c = 0 \<or> r < c)
                  \<longrightarrow> \<not> table (table_ref it) ! nat (r div 2))"
proof -
  let ?T = "table_ref it" and ?v = "current it"
  have v: "?v \<noteq> 0" "?v \<noteq> 2" using assms by auto
  have add: "T_add ?v 2 = Inr (?v + 2)" using assms(3,5) by (simp add: T_add_def T_min_def)
  from scan_result[OF assms(1) _ _ assms(4), of "?v + 2"] assms(2,3)
  obtain q where q: "scan ?T (?v + 2) = Inr q" "?v + 2 \<le> q" "odd q"
    "q \<le> limit ?T \<longrightarrow> table ?T ! nat (q div 2)"
    "\<forall>r. odd r \<and> ?v + 2 \<le> r \<and> r < q \<and> r \<le> limit ?T \<longrightarrow> \<not> table ?T ! nat (r div 2)"
    by auto
  define c where "c = (if q \<le> limit ?T then q else 0)"
  have inc: "increment it = Inr (it\<lparr>current := c\<rparr>)"
    using v q(1) add by (simp add: increment_def c_def)
  have a: "c = 0 \<or> (?v < c \<and> c \<le> limit ?T \<and> odd c \<and> table ?T ! nat (c div 2))"
    using q by (auto simp: c_def)
  have b: "\<forall>r. odd r \<and> ?v < r \<and> r \<le> limit ?T \<and> (c = 0 \<or> r < c) \<longrightarrow> \<not> table ?T ! nat (r div 2)"
  proof (intro allI impI)
    fix r assume r: "odd r \<and> ?v < r \<and> r \<le> limit ?T \<and> (c = 0 \<or> r < c)"
    then have "?v + 2 \<le> r" using assms(2) by presburger
    moreover have "r < q"
    proof (cases "q \<le> limit ?T")
      case True
      then have "c = q" "c \<noteq> 0" using q(2) assms(3) by (auto simp: c_def)
      with r show ?thesis by simp
    next
      case False
      with r show ?thesis by simp
    qed
    ultimately show "\<not> table ?T ! nat (r div 2)" using q(5) r by blast
  qed
  show ?thesis using inc a b by blast
qed

lemma trial_prime_2: "trial_prime 2"
  unfolding trial_prime_iff by auto

lemma trial_prime_3: "trial_prime 3"
proof -
  have "\<not> d dvd 3" if "2 \<le> d" "d < 3" for d :: int
  proof -
    from that have "d = 2" by simp
    then show ?thesis by simp
  qed
  then show ?thesis by (auto simp: trial_prime_iff)
qed

lemma trial_prime_odd: "trial_prime p \<Longrightarrow> p \<noteq> 2 \<Longrightarrow> odd p \<and> 3 \<le> p"
proof -
  assume p: "trial_prime p" "p \<noteq> 2"
  then have "2 \<le> p" "\<not> 2 dvd p \<or> \<not> 2 < p" by (auto simp: trial_prime_iff)
  with p(2) show ?thesis by auto
qed

lemma table_ok_bit:
  assumes "table_ok T" "odd r" "3 \<le> r" "r \<le> limit T"
  shows "table T ! nat (r div 2) = trial_prime r"
proof -
  from assms(2) obtain j where j: "r = 2 * j + 1" by (auto elim: oddE)
  with assms have "1 \<le> j \<and> 2 * j + 1 \<le> limit T" by simp
  with assms(1) have "table T ! nat j = trial_prime (2 * j + 1)" by (simp add: table_ok_def)
  moreover have "r div 2 = j" using j by simp
  ultimately show ?thesis using j by simp
qed

text \<open>The effect of \<open>operator++\<close> on a cursor that stands at a prime of the table.\<close>

lemma prime_step_in_range:
  assumes "table_ok T" "trial_prime v" "v \<le> limit T"
  shows "v + 2 \<le> T_max"
proof (cases "v = 2")
  case True
  then show ?thesis by (simp add: T_max_def)
next
  case False
  from trial_prime_odd[OF assms(2) False] have "odd v" by simp
  moreover have "v < 2147483647" using assms(1,3) by (simp add: table_ok_def T_max_def)
  ultimately have "v + 2 \<le> 2147483647" by presburger
  then show ?thesis by (simp add: T_max_def)
qed

lemma increment_next_prime:
  assumes ok: "table_ok (table_ref it)" and pr: "trial_prime (current it)"
    and rng: "current it + 2 \<le> T_max"
  shows "\<exists>c. increment it = Inr (it\<lparr>current := c\<rparr>)
           \<and> (c = 0 \<or> (trial_prime c \<and> current it < c \<and> c \<le> limit (table_ref it)))
           \<and> (\<forall>r. trial_prime r \<and> current it < r \<and> r \<le> limit (table_ref it) \<longrightarrow> c \<noteq> 0 \<and> c \<le> r)"
proof (cases "current it = 2")
  case True
  let ?c = "if 3 \<le> limit (table_ref it) then 3 else (0::int)"
  have "increment it = Inr (it\<lparr>current := ?c\<rparr>)" using True by (simp add: increment_def)
  moreover have "?c = 0 \<or> (trial_prime ?c \<and> current it < ?c \<and> ?c \<le> limit (table_ref it))"
    using True trial_prime_3 by simp
  moreover have "\<forall>r. trial_prime r \<and> current it < r \<and> r \<le> limit (table_ref it) \<longrightarrow> ?c \<noteq> 0 \<and> ?c \<le> r"
    using True by auto
  ultimately show ?thesis by blast
next
  case False
  let ?T = "table_ref it" and ?v = "current it"
  from trial_prime_odd[OF pr False] have v: "odd ?v" "3 \<le> ?v" by auto
  from ok have sz: "bs_size (table ?T) = (limit ?T + 1) div 2" and lt: "limit ?T < T_max"
    by (simp_all add: table_ok_def)
  from increment_bits[OF sz v(1) _ lt rng] v(2)
  obtain c where inc: "increment it = Inr (it\<lparr>current := c\<rparr>)"
    and a: "c = 0 \<or> (?v < c \<and> c \<le> limit ?T \<and> odd c \<and> table ?T ! nat (c div 2))"
    and b: "\<forall>r. odd r \<and> ?v < r \<and> r \<le> limit ?T \<and> (c = 0 \<or> r < c) \<longrightarrow> \<not> table ?T ! nat (r div 2)"
    by auto
  have a': "c = 0 \<or> (trial_prime c \<and> ?v < c \<and> c \<le> limit ?T)"
  proof (cases "c = 0")
    case True then show ?thesis by simp
  next
    case False
    with a have c: "?v < c" "c \<le> limit ?T" "odd c" "table ?T ! nat (c div 2)" by auto
    with v have "3 \<le> c" by simp
    from table_ok_bit[OF ok c(3) this c(2)] c show ?thesis by simp
  qed
  have b': "\<forall>r. trial_prime r \<and> ?v < r \<and> r \<le> limit ?T \<longrightarrow> c \<noteq> 0 \<and> c \<le> r"
  proof (intro allI impI)
    fix r assume r: "trial_prime r \<and> ?v < r \<and> r \<le> limit ?T"
    with v have "r \<noteq> 2" by auto
    from trial_prime_odd[OF _ this] r have ro: "odd r" "3 \<le> r" by auto
    from table_ok_bit[OF ok ro] r have bit: "table ?T ! nat (r div 2)" by simp
    show "c \<noteq> 0 \<and> c \<le> r"
    proof (rule ccontr)
      assume "\<not> (c \<noteq> 0 \<and> c \<le> r)"
      then have "c = 0 \<or> r < c" by auto
      with b ro r have "\<not> table ?T ! nat (r div 2)" by blast
      with bit show False by simp
    qed
  qed
  show ?thesis using inc a' b' by blast
qed

lemma enumerate_from_end: "enumerate_from T \<lparr>table_ref = T, current = 0\<rparr> = Inr []"
  by (simp add: enumerate_from.simps[of T "\<lparr>table_ref = T, current = 0\<rparr>"]
        not_equal_it_def equal_it_def end_it_def)

lemma filter_upto_none:
  "(\<forall>r. a \<le> r \<and> r \<le> b \<longrightarrow> \<not> P r) \<Longrightarrow> filter P [a..b] = []"
  by (simp add: filter_empty_conv)

lemma enumerate_from_prime:
  assumes "table_ok T" "trial_prime v" "v \<le> limit T"
  shows "enumerate_from T \<lparr>table_ref = T, current = v\<rparr> = Inr (filter trial_prime [v..limit T])"
  using assms
proof (induction "nat (limit T - v)" arbitrary: v rule: less_induct)
  case less
  let ?it = "\<lparr>table_ref = T, current = v\<rparr>"
  note unf = enumerate_from.simps[of T ?it]
  have v2: "2 \<le> v" using less.prems(2) by (simp add: trial_prime_iff)
  then have ne: "not_equal_it ?it (end_it T)" by (simp add: not_equal_it_def equal_it_def)
  from increment_next_prime[of ?it] less.prems prime_step_in_range[OF less.prems]
  obtain c where inc: "increment ?it = Inr \<lparr>table_ref = T, current = c\<rparr>"
    and a: "c = 0 \<or> (trial_prime c \<and> v < c \<and> c \<le> limit T)"
    and b: "\<forall>r. trial_prime r \<and> v < r \<and> r \<le> limit T \<longrightarrow> c \<noteq> 0 \<and> c \<le> r"
    by auto
  have hd: "filter trial_prime [v..limit T] = v # filter trial_prime [v + 1..limit T]"
    using less.prems(2,3) by (simp add: upto_rec1)
  show ?case
  proof (cases "c = 0")
    case True
    with b have "\<forall>r. v + 1 \<le> r \<and> r \<le> limit T \<longrightarrow> \<not> trial_prime r" by auto
    then have "filter trial_prime [v + 1..limit T] = []" by (rule filter_upto_none)
    then show ?thesis using ne inc True hd by (simp add: unf enumerate_from_end deref_def)
  next
    case False
    with a have c: "trial_prime c" "v < c" "c \<le> limit T" by auto
    have "nat (limit T - c) < nat (limit T - v)" using c by simp
    from less.hyps[OF this less.prems(1) c(1) c(3)]
    have rec: "enumerate_from T \<lparr>table_ref = T, current = c\<rparr> = Inr (filter trial_prime [c..limit T])" .
    have "[v + 1..limit T] = [v + 1..c - 1] @ [c..limit T]"
      using c by (intro upto_split1) auto
    moreover have "filter trial_prime [v + 1..c - 1] = []"
    proof (rule filter_upto_none, intro allI impI)
      fix r assume r: "v + 1 \<le> r \<and> r \<le> c - 1"
      show "\<not> trial_prime r"
      proof
        assume "trial_prime r"
        with b r c have "c \<le> r" by auto
        with r show False by simp
      qed
    qed
    ultimately have "filter trial_prime [v + 1..limit T] = filter trial_prime [c..limit T]" by simp
    then show ?thesis using ne inc rec hd by (simp add: unf deref_def)
  qed
qed

lemma lower_bound_loop_end:
  "lower_bound_loop T n \<lparr>table_ref = T, current = 0\<rparr> = Inr \<lparr>table_ref = T, current = 0\<rparr>"
  by (simp add: lower_bound_loop.simps[of T n "\<lparr>table_ref = T, current = 0\<rparr>"]
        not_equal_it_def equal_it_def end_it_def)

lemma lower_bound_loop_result:
  assumes "table_ok T" "trial_prime v" "v \<le> limit T"
  shows "\<exists>c. lower_bound_loop T n \<lparr>table_ref = T, current = v\<rparr> = Inr \<lparr>table_ref = T, current = c\<rparr>
           \<and> (c = 0 \<or> (trial_prime c \<and> v \<le> c \<and> c \<le> limit T \<and> n \<le> c))
           \<and> (\<forall>r. trial_prime r \<and> v \<le> r \<and> r \<le> limit T \<and> n \<le> r \<longrightarrow> c \<noteq> 0 \<and> c \<le> r)"
  using assms
proof (induction "nat (limit T - v)" arbitrary: v rule: less_induct)
  case less
  let ?it = "\<lparr>table_ref = T, current = v\<rparr>"
  note unf = lower_bound_loop.simps[of T n ?it]
  have v2: "2 \<le> v" using less.prems(2) by (simp add: trial_prime_iff)
  then have ne: "not_equal_it ?it (end_it T)" by (simp add: not_equal_it_def equal_it_def)
  show ?case
  proof (cases "v < n")
    case False
    then have "lower_bound_loop T n ?it = Inr ?it" by (simp add: unf deref_def)
    then show ?thesis using False less.prems v2 by auto
  next
    case True
    from increment_next_prime[of ?it] less.prems prime_step_in_range[OF less.prems]
    obtain c where inc: "increment ?it = Inr \<lparr>table_ref = T, current = c\<rparr>"
      and a: "c = 0 \<or> (trial_prime c \<and> v < c \<and> c \<le> limit T)"
      and b: "\<forall>r. trial_prime r \<and> v < r \<and> r \<le> limit T \<longrightarrow> c \<noteq> 0 \<and> c \<le> r"
      by auto
    have step: "lower_bound_loop T n ?it = lower_bound_loop T n \<lparr>table_ref = T, current = c\<rparr>"
      using ne True inc by (simp add: unf deref_def)
    show ?thesis
    proof (cases "c = 0")
      case c0: True
      have "\<forall>r. trial_prime r \<and> v \<le> r \<and> r \<le> limit T \<and> n \<le> r \<longrightarrow> False"
        using b c0 True by auto
      then show ?thesis using step c0 lower_bound_loop_end[of T n] by auto
    next
      case False
      with a have c: "trial_prime c" "v < c" "c \<le> limit T" by auto
      have "nat (limit T - c) < nat (limit T - v)" using c by simp
      from less.hyps[OF this less.prems(1) c(1) c(3)]
      obtain d where d: "lower_bound_loop T n \<lparr>table_ref = T, current = c\<rparr> = Inr \<lparr>table_ref = T, current = d\<rparr>"
        "d = 0 \<or> (trial_prime d \<and> c \<le> d \<and> d \<le> limit T \<and> n \<le> d)"
        "\<forall>r. trial_prime r \<and> c \<le> r \<and> r \<le> limit T \<and> n \<le> r \<longrightarrow> d \<noteq> 0 \<and> d \<le> r"
        by blast
      have "d = 0 \<or> (trial_prime d \<and> v \<le> d \<and> d \<le> limit T \<and> n \<le> d)" using d(2) c(2) by auto
      moreover have "\<forall>r. trial_prime r \<and> v \<le> r \<and> r \<le> limit T \<and> n \<le> r \<longrightarrow> d \<noteq> 0 \<and> d \<le> r"
      proof (intro allI impI)
        fix r assume r: "trial_prime r \<and> v \<le> r \<and> r \<le> limit T \<and> n \<le> r"
        with True have "v < r" by simp
        with b r have "c \<le> r" by blast
        with d(3) r show "d \<noteq> 0 \<and> d \<le> r" by blast
      qed
      ultimately show ?thesis using step d(1) by auto
    qed
  qed
qed

lemma lower_bound_result:
  assumes "table_ok T" "2 \<le> limit T"
  shows "\<exists>c. lower_bound T n = Inr \<lparr>table_ref = T, current = c\<rparr>
           \<and> (c = 0 \<or> (trial_prime c \<and> c \<le> limit T \<and> n \<le> c))
           \<and> (\<forall>r. trial_prime r \<and> r \<le> limit T \<and> n \<le> r \<longrightarrow> c \<noteq> 0 \<and> c \<le> r)"
proof -
  from lower_bound_loop_result[OF assms(1) trial_prime_2 assms(2), of n]
  obtain c where c: "lower_bound_loop T n \<lparr>table_ref = T, current = 2\<rparr> = Inr \<lparr>table_ref = T, current = c\<rparr>"
    "c = 0 \<or> (trial_prime c \<and> 2 \<le> c \<and> c \<le> limit T \<and> n \<le> c)"
    "\<forall>r. trial_prime r \<and> 2 \<le> r \<and> r \<le> limit T \<and> n \<le> r \<longrightarrow> c \<noteq> 0 \<and> c \<le> r"
    by blast
  have "\<forall>r. trial_prime r \<and> r \<le> limit T \<and> n \<le> r \<longrightarrow> c \<noteq> 0 \<and> c \<le> r"
    using c(3) by (auto simp: trial_prime_iff)
  then show ?thesis using c(1,2) by (auto simp: lower_bound_def begin_it_def)
qed

lemma reachable_invariant:
  assumes "table_ok T" "2 \<le> limit T" "reachable T it"
  shows "table_ref it = T
         \<and> (current it = 0 \<or> (trial_prime (current it) \<and> 2 \<le> current it \<and> current it \<le> limit T))"
  using assms(3)
proof (induction rule: reachable.induct)
  case from_begin
  then show ?case using assms(2) trial_prime_2 by (simp add: begin_it_def)
next
  case (from_lower_bound n it)
  from lower_bound_result[OF assms(1,2), of n] from_lower_bound
  show ?case by (auto simp: trial_prime_iff)
next
  case (by_increment it it')
  from by_increment.hyps(2) have nz: "current it \<noteq> 0"
    by (auto simp: increment_def split: if_splits)
  with by_increment.IH have T: "table_ref it = T" and pr: "trial_prime (current it)"
    and le: "current it \<le> limit T" by auto
  from increment_next_prime[of it] T pr assms(1) prime_step_in_range[OF assms(1) pr le]
  obtain c where "increment it = Inr (it\<lparr>current := c\<rparr>)"
    "c = 0 \<or> (trial_prime c \<and> current it < c \<and> c \<le> limit T)"
    by auto
  with by_increment.hyps(2) T show ?case by (auto simp: trial_prime_iff)
qed

section \<open>Concrete tables\<close>

lemmas constructor_steps = prime_table_init_def initial_table_def T_add_def T_min_def T_max_def
  bs_create_def cdiv_def bs_reset_def bs_test_def bs_size_def eval_nat_numeral
  sieve_small.simps sieve_segments.simps sieve_segment.simps mark_small.simps
  mark_segment.simps window_def

lemmas iterator_eval = begin_it_def end_it_def equal_it_def not_equal_it_def deref_def
  increment_def enumerate_from.simps lower_bound_def lower_bound_loop.simps scan.simps
  test_odd_def cmod_def cdiv_def bs_test_def bs_size_def T_add_def T_min_def T_max_def

lemma isqrt_30: "isqrt 30 = 5"
  by (simp add: isqrt_def eval_nat_numeral)

lemma prime_table_init_30:
  "prime_table_init 30 =
     Inr \<lparr>limit = 30,
          table = [False, True, True, True, False, True, True, False, True, True,
                   False, True, False, False, True]\<rparr>"
proof -
  from reserve_ok[of 5] obtain n where
    "estimated_small_count 5 = Inr n" "vector_reserve n = Inr ()" by auto
  then show ?thesis by (simp add: constructor_steps isqrt_30)
qed

lemma test_result:
  assumes ok: "table_ok T" and n: "1 \<le> n" "n \<le> limit T"
  shows "test T n = Inr (trial_prime n)"
    and "n = 1 \<longrightarrow> test T n = Inr False"
    and "n = 2 \<longrightarrow> test T n = Inr True"
    and "even n \<and> n \<noteq> 2 \<longrightarrow> test T n = Inr False"
    and "odd n \<and> 3 \<le> n \<longrightarrow> test T n = bs_test (table T) (cdiv n 2)
           \<and> test T n = Inr (table T ! nat (n div 2))"
proof -
  have m: "cmod n 2 = n mod 2" using n by (simp add: cmod_nonneg)
  have d: "cdiv n 2 = n div 2" using n by (simp add: cdiv_nonneg)
  from ok have sz: "bs_size (table T) = (limit T + 1) div 2" by (simp add: table_ok_def)
  show one: "n = 1 \<longrightarrow> test T n = Inr False" using n by (simp add: test_def)
  show two: "n = 2 \<longrightarrow> test T n = Inr True" using n by (simp add: test_def)
  show ev: "even n \<and> n \<noteq> 2 \<longrightarrow> test T n = Inr False" using n m by (auto simp: test_def)
  have od: "test T n = test_odd T n" if "odd n" "3 \<le> n"
    using that n m by (auto simp: test_def odd_iff_mod_2_eq_one)
  have od': "test_odd T n = bs_test (table T) (cdiv n 2)" if "odd n" "3 \<le> n"
    using that m by (simp add: test_odd_def odd_iff_mod_2_eq_one)
  have od'': "test_odd T n = Inr (table T ! nat (n div 2))" if "odd n" "3 \<le> n"
    using that odd_index[OF that(1) n sz] by simp
  show "odd n \<and> 3 \<le> n \<longrightarrow> test T n = bs_test (table T) (cdiv n 2)
           \<and> test T n = Inr (table T ! nat (n div 2))"
    using od od' od'' by auto
  show "test T n = Inr (trial_prime n)"
  proof (cases "n = 1 \<or> n = 2")
    case True
    then show ?thesis using one two trial_prime_2 by (auto simp: trial_prime_iff)
  next
    case False
    with n have n3: "3 \<le> n" by simp
    show ?thesis
    proof (cases "odd n")
      case True
      from table_ok_bit[OF ok True n3 n(2)] od[OF True n3] od''[OF True n3]
      show ?thesis by simp
    next
      case False
      then have "2 dvd n" by simp
      with n3 have "\<not> trial_prime n" by (auto simp: trial_prime_iff)
      with ev False n3 show ?thesis by simp
    qed
  qed
qed

section \<open>Counting\<close>

lemma primes_upto_11: "filter trial_prime [2..11] = [2, 3, 5, 7, 11]"
  by code_simp

lemma nth_prime_at_most_11:
  assumes "is_nth_prime n p" "n \<le> 5"
  shows "2 \<le> p \<and> p \<le> 11"
proof -
  from assms(1) have pr: "trial_prime p" and cnt: "int (length (filter trial_prime [2..p])) = n"
    by (auto simp: is_nth_prime_def)
  have p2: "2 \<le> p" using pr by (simp add: trial_prime_iff)
  have "p \<le> 11"
  proof (rule ccontr)
    assume "\<not> p \<le> 11"
    then have p12: "12 \<le> p" by simp
    have "[2..p] = [2..11] @ [12..p]" using upto_split1[of 2 12 p] p12 by simp
    then have "filter trial_prime [2..p] = filter trial_prime [2..11] @ filter trial_prime [12..p]"
      by (simp only: filter_append)
    then have "length (filter trial_prime [2..p]) = 5 + length (filter trial_prime [12..p])"
      by (simp only: primes_upto_11 length_append) simp
    moreover have "p \<in> set (filter trial_prime [12..p])" using pr p12 by simp
    then have "1 \<le> length (filter trial_prime [12..p])"
      using length_pos_if_in_set[of p "filter trial_prime [12..p]"] by linarith
    ultimately have "6 \<le> int (length (filter trial_prime [2..p]))" by linarith
    with cnt assms(2) show False by simp
  qed
  with p2 show ?thesis by simp
qed

lemma first_five_primes:
  "is_nth_prime 1 2" "is_nth_prime 2 3" "is_nth_prime 3 5" "is_nth_prime 4 7" "is_nth_prime 5 11"
  unfolding is_nth_prime_def by code_simp+

lemma card_odd_upto:
  assumes "0 \<le> N"
  shows "int (card {n. 1 \<le> n \<and> n \<le> N \<and> odd n}) = (N + 1) div 2"
proof -
  let ?m = "(N + 1) div 2"
  have "{n. 1 \<le> n \<and> n \<le> N \<and> odd n} = (\<lambda>k. 2 * k + 1) ` {0..<?m}"
  proof (intro set_eqI iffI)
    fix n assume "n \<in> {n. 1 \<le> n \<and> n \<le> N \<and> odd n}"
    then have n: "1 \<le> n" "n \<le> N" "odd n" by auto
    then obtain k where k: "n = 2 * k + 1" by (auto elim: oddE)
    with n have "0 \<le> k" "k < ?m" by auto
    with k show "n \<in> (\<lambda>k. 2 * k + 1) ` {0..<?m}" by auto
  next
    fix n assume "n \<in> (\<lambda>k. 2 * k + 1) ` {0..<?m}"
    then obtain k where k: "n = 2 * k + 1" "0 \<le> k" "k < ?m" by auto
    then have "2 * k + 1 \<le> N" by presburger
    with k show "n \<in> {n. 1 \<le> n \<and> n \<le> N \<and> odd n}" by auto
  qed
  moreover have "inj_on (\<lambda>k::int. 2 * k + 1) {0..<?m}" by (simp add: inj_on_def)
  ultimately have "card {n. 1 \<le> n \<and> n \<le> N \<and> odd n} = card {0..<?m}"
    by (simp add: card_image)
  then show ?thesis using assms by simp
qed

section \<open>Walks and searches\<close>

text \<open>
  On every table that the constructor returns, \<open>test(n)\<close> is primality by trial division
  and the walk from \<open>begin()\<close> to \<open>end()\<close> is the ascending list of the primes up to the
  limit.
\<close>

lemma test_is_trial_division:
  assumes "4 \<le> N" "N < T_max" "1 \<le> n" "n \<le> N"
  shows "\<exists>T. prime_table_init N = Inr T \<and> limit T = N
           \<and> test T n = Inr (trial_prime n)
           \<and> (n = 1 \<longrightarrow> test T n = Inr False)
           \<and> (n = 2 \<longrightarrow> test T n = Inr True)
           \<and> (even n \<and> n \<noteq> 2 \<longrightarrow> test T n = Inr False)
           \<and> (odd n \<and> 3 \<le> n \<longrightarrow> test T n = bs_test (table T) (cdiv n 2)
                  \<and> test T n = Inr (table T ! nat (n div 2)))"
proof -
  from prime_table_init_result[OF assms(1,2)] obtain T where T: "prime_table_init N = Inr T"
    by blast
  from prime_table_init_Inr[OF T] have l: "limit T = N" and ok: "table_ok T" by auto
  from test_result[OF ok, of n] assms l T show ?thesis by blast
qed

lemma enumerate_from_begin:
  assumes "prime_table_init N = Inr T"
  shows "enumerate_from T (begin_it T) = Inr (filter trial_prime [1..N])"
    and "sorted_wrt (<) (filter trial_prime [1..N])"
proof -
  from prime_table_init_Inr[OF assms] have l: "limit T = N" and ok: "table_ok T"
    and N4: "4 \<le> N" by auto
  have "\<not> trial_prime 1" by (simp add: trial_prime_iff)
  then have "filter trial_prime [1..N] = filter trial_prime [2..N]"
    using N4 by (simp add: upto_rec1[of 1 N])
  moreover have "enumerate_from T \<lparr>table_ref = T, current = 2\<rparr> = Inr (filter trial_prime [2..limit T])"
    using enumerate_from_prime[OF ok trial_prime_2] N4 l by simp
  ultimately show "enumerate_from T (begin_it T) = Inr (filter trial_prime [1..N])"
    using l by (simp add: begin_it_def)
  have "sorted_wrt (<) [1..N]" by simp
  then show "sorted_wrt (<) (filter trial_prime [1..N])" by (rule sorted_wrt_filter)
qed

lemma lower_bound_30_14:
  "lower_bound \<lparr>limit = 30,
          table = [False, True, True, True, False, True, True, False, True, True,
                   False, True, False, False, True]\<rparr> 14
   = Inr \<lparr>table_ref = \<lparr>limit = 30,
          table = [False, True, True, True, False, True, True, False, True, True,
                   False, True, False, False, True]\<rparr>, current = 17\<rparr>"
  by (simp add: iterator_eval)

lemma enumerate_30:
  "enumerate_from \<lparr>limit = 30,
          table = [False, True, True, True, False, True, True, False, True, True,
                   False, True, False, False, True]\<rparr>
     (begin_it \<lparr>limit = 30,
          table = [False, True, True, True, False, True, True, False, True, True,
                   False, True, False, False, True]\<rparr>)
   = Inr [2, 3, 5, 7, 11, 13, 17, 19, 23, 29]"
  by (simp add: iterator_eval)


section \<open>The claims\<close>

text \<open>
  C1. The claim is about every limit \<open>N \<ge> 1\<close>. At \<open>N = 3\<close>, where 3 is prime and the claim
  says \<open>test(3)\<close> is true, the constructor returns no table: \<open>isqrt(3) = 1\<close>, and line 163
  converts \<open>1 / std::log(1)\<close>, which is infinite, to \<open>T\<close>.
\<close>

theorem constructor_at_limit_three:
  "isqrt 3 = 1 \<and> estimated_small_count 1 = Inl UndefinedConversion
   \<and> prime_table_init 3 = Inl UndefinedConversion \<and> trial_prime 3"
  using prime_table_init_3 trial_prime_3
  by (simp add: isqrt_def eval_nat_numeral estimated_small_count_def)

text \<open>
  C2. The claim is about every limit \<open>N \<ge> 0\<close>. At \<open>N = 2\<close> the primes up to \<open>N\<close> are the
  single value 2, and the constructor returns no table to walk: \<open>isqrt(2) = 1\<close>, and line
  163 converts \<open>1 / std::log(1)\<close> to \<open>T\<close>.
\<close>

theorem walk_at_limit_two:
  "isqrt 2 = 1 \<and> prime_table_init 2 = Inl UndefinedConversion
   \<and> filter trial_prime [1..2] = [2]"
proof -
  have "filter trial_prime [1..2] = [2]" by code_simp
  then show ?thesis using prime_table_init_2 by (simp add: isqrt_def eval_nat_numeral)
qed

text \<open>
  C3. The claim says that the walk from \<open>begin()\<close> to \<open>end()\<close> over the table of \<open>N = 1\<close>
  visits no value. At \<open>N = 1\<close> the constructor returns no table: \<open>isqrt(1) = 1\<close>, and line
  163 converts \<open>1 / std::log(1)\<close> to \<open>T\<close>. On any table, \<open>begin()\<close> is a cursor at 2 that
  differs from \<open>end()\<close>; it has no case for a table without primes.
\<close>

theorem begin_at_limit_one:
  "isqrt 1 = 1 \<and> prime_table_init 1 = Inl UndefinedConversion
   \<and> current (begin_it T) = 2 \<and> not_equal_it (begin_it T) (end_it T)"
  using prime_table_init_1
  by (simp add: isqrt_def begin_it_def end_it_def not_equal_it_def equal_it_def)

text \<open>
  C4. The claim is about every \<open>N \<ge> 0\<close>. At \<open>N = 0\<close> the store is allocated with
  \<open>(0+1)/2 = 0\<close> bits, and the forced clear of bit 0 is outside it.
\<close>

theorem constructor_at_limit_zero:
  "initial_table 0 = Inr [] \<and> bs_reset [] 0 = Inl OutOfRange
   \<and> prime_table_init 0 = Inl OutOfRange"
  using prime_table_init_zero
  by (simp add: initial_table_def T_add_def T_min_def T_max_def bs_create_def cdiv_def
        bs_reset_def bs_size_def)




text \<open>
  C6. For every table and every \<open>n\<close>, \<open>lower_bound(n)\<close> returns a cursor at the smallest
  prime \<open>p\<close> of the table with \<open>p \<ge> n\<close>, or \<open>end()\<close> if no such prime up to the limit
  exists. With \<open>N = 30\<close>, \<open>lower_bound(14)\<close> yields 17.
\<close>

theorem lower_bound_smallest_prime:
  assumes "prime_table_init N = Inr T"
  shows "\<exists>c. lower_bound T n = Inr \<lparr>table_ref = T, current = c\<rparr>
           \<and> (c = 0 \<or> (trial_prime c \<and> c \<le> N \<and> n \<le> c))
           \<and> (\<forall>r. trial_prime r \<and> r \<le> N \<and> n \<le> r \<longrightarrow> c \<noteq> 0 \<and> c \<le> r)"
proof -
  from prime_table_init_Inr[OF assms] have l: "limit T = N" and ok: "table_ok T"
    and N4: "4 \<le> N" by auto
  from lower_bound_result[OF ok, of n] N4 l show ?thesis by simp
qed

theorem lower_bound_smallest_prime_witness:
  "prime_table_init 30 =
     Inr \<lparr>limit = 30,
          table = [False, True, True, True, False, True, True, False, True, True,
                   False, True, False, False, True]\<rparr>
   \<and> lower_bound \<lparr>limit = 30,
          table = [False, True, True, True, False, True, True, False, True, True,
                   False, True, False, False, True]\<rparr> 14
       = Inr \<lparr>table_ref = \<lparr>limit = 30,
          table = [False, True, True, True, False, True, True, False, True, True,
                   False, True, False, False, True]\<rparr>, current = 17\<rparr>
   \<and> trial_prime 17 \<and> (14::int) \<le> 17 \<and> (17::int) \<le> 30"
proof -
  let ?T = "\<lparr>limit = 30,
          table = [False, True, True, True, False, True, True, False, True, True,
                   False, True, False, False, True]\<rparr>"
  from lower_bound_smallest_prime[OF prime_table_init_30, of 14] lower_bound_30_14
  have "trial_prime 17" by auto
  then show ?thesis using prime_table_init_30 lower_bound_30_14 by simp
qed

text \<open>
  C7. For all cursors \<open>a\<close> and \<open>b\<close>, over the same table or over different
  tables, \<open>a == b\<close> holds exactly when both are in the end state (current value 0).
  So two cursors that are not at the end and stand at the same value compare unequal, and
  a cursor that is not at the end is not equal to itself.
\<close>

theorem equal_it_only_at_end:
  "equal_it a b = (current a = 0 \<and> current b = 0)
   \<and> (current a \<noteq> 0 \<and> current a = current b \<longrightarrow> \<not> equal_it a b \<and> not_equal_it a b)
   \<and> (current a \<noteq> 0 \<longrightarrow> \<not> equal_it a a)"
  by (simp add: equal_it_def not_equal_it_def)

theorem equal_it_only_at_end_witness:
  "\<not> equal_it \<lparr>table_ref = \<lparr>limit = 30, table = []\<rparr>, current = 7\<rparr>
              \<lparr>table_ref = \<lparr>limit = 10, table = []\<rparr>, current = 7\<rparr>
   \<and> \<not> equal_it \<lparr>table_ref = \<lparr>limit = 30, table = []\<rparr>, current = 7\<rparr>
                \<lparr>table_ref = \<lparr>limit = 30, table = []\<rparr>, current = 7\<rparr>
   \<and> equal_it \<lparr>table_ref = \<lparr>limit = 30, table = []\<rparr>, current = 0\<rparr>
              \<lparr>table_ref = \<lparr>limit = 10, table = []\<rparr>, current = 0\<rparr>"
  using equal_it_only_at_end
          [of "\<lparr>table_ref = \<lparr>limit = 30, table = []\<rparr>, current = 7\<rparr>"
              "\<lparr>table_ref = \<lparr>limit = 10, table = []\<rparr>, current = 7\<rparr>"]
        equal_it_only_at_end
          [of "\<lparr>table_ref = \<lparr>limit = 30, table = []\<rparr>, current = 7\<rparr>"
              "\<lparr>table_ref = \<lparr>limit = 30, table = []\<rparr>, current = 7\<rparr>"]
        equal_it_only_at_end
          [of "\<lparr>table_ref = \<lparr>limit = 30, table = []\<rparr>, current = 0\<rparr>"
              "\<lparr>table_ref = \<lparr>limit = 10, table = []\<rparr>, current = 0\<rparr>"]
  by simp

text \<open>
  C8, as the spec states it, fails at \<open>N = 4\<close>, where the store has 2 bits and
  \<open>\<lceil>(4+1)/2\<rceil> = 3\<close>, and at the largest value of \<open>T\<close>, where \<open>N + 1\<close> overflows.
\<close>

theorem store_size_not_ceiling:
  "initial_table 4 = Inr [True, True] \<and> bs_size [True, True] = 2 \<and> spec_store_size 4 = 3
   \<and> initial_table 2147483647 = Inl Overflow"
  by (simp add: initial_table_def T_add_def T_min_def T_max_def bs_create_def cdiv_def
        bs_size_def spec_store_size_def eval_nat_numeral)

text \<open>
  C8, amended. For every \<open>N \<ge> 0\<close> below the largest value of \<open>T\<close>, the bit store is
  allocated with exactly \<open>\<lfloor>(N+1)/2\<rfloor>\<close> bits (the quotient of the integer division
  \<open>(N+1)/2\<close>), which is one bit for each odd integer in \<open>[1, N]\<close> and is \<open>\<lceil>(N+1)/2\<rceil>\<close>
  only for odd \<open>N\<close>; all bits are true before the sieve starts, and a table that the
  constructor returns has that size.
\<close>

theorem store_size_floor:
  assumes "0 \<le> N" "N < T_max"
  shows "initial_table N = Inr (replicate (nat ((N + 1) div 2)) True)
         \<and> (N + 1) div 2 = int (card {n. 1 \<le> n \<and> n \<le> N \<and> odd n})
         \<and> (N + 1) div 2 = spec_store_size N - (if even N then 1 else 0)
         \<and> (\<forall>T. prime_table_init N = Inr T \<longrightarrow> bs_size (table T) = (N + 1) div 2)"
proof -
  have "T_add N 1 = Inr (N + 1)" using assms by (simp add: T_add_def T_min_def)
  then have a: "initial_table N = Inr (replicate (nat ((N + 1) div 2)) True)"
    using assms(1) by (simp add: initial_table_def bs_create_def cdiv_nonneg)
  have b: "(N + 1) div 2 = int (card {n. 1 \<le> n \<and> n \<le> N \<and> odd n})"
    using card_odd_upto[OF assms(1)] by simp
  have "spec_store_size N = - (- (N + 1) div 2)"
    unfolding spec_store_size_def using ceiling_divide_eq_div[of "N + 1" 2, where ?'a = real]
    by simp
  then have c: "(N + 1) div 2 = spec_store_size N - (if even N then 1 else 0)"
    by presburger
  have d: "\<forall>T. prime_table_init N = Inr T \<longrightarrow> bs_size (table T) = (N + 1) div 2"
    using prime_table_init_Inr by (auto simp: table_ok_def)
  from a b c d show ?thesis by blast
qed

theorem store_size_floor_witness:
  "(0::int) \<le> 30 \<and> (30::int) < T_max \<and> initial_table 30 = Inr (replicate 15 True)
   \<and> (\<exists>T. prime_table_init 30 = Inr T \<and> bs_size (table T) = 15)"
  using store_size_floor[of 30] prime_table_init_30 by (auto simp: T_max_def)

text \<open>
  C9. For every \<open>n < 6\<close>, \<open>nth_prime_bounds(n)\<close> returns exactly the pair \<open>(2, 11)\<close>, and for
  each \<open>n\<close> from 1 to 5 the \<open>n\<close>-th prime (2, 3, 5, 7 and 11) lies within these bounds,
  both inclusive.
\<close>

theorem nth_prime_bounds_below_six:
  "(n < 6 \<longrightarrow> nth_prime_bounds nt n = (2, 11))
   \<and> (1 \<le> n \<and> n \<le> 5 \<and> is_nth_prime n p
        \<longrightarrow> fst (nth_prime_bounds nt n) \<le> p \<and> p \<le> snd (nth_prime_bounds nt n))
   \<and> is_nth_prime 1 2 \<and> is_nth_prime 2 3 \<and> is_nth_prime 3 5 \<and> is_nth_prime 4 7
   \<and> is_nth_prime 5 11"
  using nth_prime_at_most_11[of n p] first_five_primes
  by (auto simp: nth_prime_bounds_def)

theorem nth_prime_bounds_below_six_witness:
  "(3::int) < 6 \<and> is_nth_prime 3 5 \<and> nth_prime_bounds (\<lambda>n. 0) 3 = (2, 11)
   \<and> fst (nth_prime_bounds (\<lambda>n. 0) 3) \<le> 5 \<and> 5 \<le> snd (nth_prime_bounds (\<lambda>n. 0) 3)"
  using nth_prime_bounds_below_six[of 3 "\<lambda>n. 0" 5] by simp

text \<open>
  C10. On a table with limit at least 2, every cursor reachable from \<open>begin()\<close> or from
  \<open>lower_bound(n)\<close> by any number of \<open>++\<close> is in the end state (current value 0) or stands
  at a prime \<open>p\<close> with \<open>2 \<le> p \<le> limit\<close>. It never shows 1, an even value other than 2, or a
  composite value.
\<close>

theorem reachable_cursor_at_prime_or_end:
  assumes "prime_table_init N = Inr T" "2 \<le> N" "reachable T it"
  shows "table_ref it = T
         \<and> (current it = 0 \<or> (2 \<le> current it \<and> current it \<le> N \<and> trial_prime (current it)))
         \<and> current it \<noteq> 1
         \<and> (even (current it) \<longrightarrow> current it = 0 \<or> current it = 2)"
proof -
  from prime_table_init_Inr[OF assms(1)] have l: "limit T = N" and ok: "table_ok T" by auto
  from reachable_invariant[OF ok _ assms(3)] assms(2) l
  have inv: "table_ref it = T"
    "current it = 0 \<or> (trial_prime (current it) \<and> 2 \<le> current it \<and> current it \<le> N)"
    by auto
  have "even (current it) \<longrightarrow> current it = 0 \<or> current it = 2"
    using inv(2) trial_prime_odd[of "current it"] by auto
  with inv show ?thesis by auto
qed

theorem reachable_cursor_at_prime_or_end_witness:
  "prime_table_init 30 =
     Inr \<lparr>limit = 30,
          table = [False, True, True, True, False, True, True, False, True, True,
                   False, True, False, False, True]\<rparr>
   \<and> (2::int) \<le> 30
   \<and> reachable \<lparr>limit = 30,
          table = [False, True, True, True, False, True, True, False, True, True,
                   False, True, False, False, True]\<rparr>
        \<lparr>table_ref = \<lparr>limit = 30,
          table = [False, True, True, True, False, True, True, False, True, True,
                   False, True, False, False, True]\<rparr>, current = 3\<rparr>
   \<and> trial_prime 3"
proof -
  let ?T = "\<lparr>limit = 30,
          table = [False, True, True, True, False, True, True, False, True, True,
                   False, True, False, False, True]\<rparr>"
  let ?it = "\<lparr>table_ref = ?T, current = 3\<rparr>"
  have "increment (begin_it ?T) = Inr ?it" by (simp add: increment_def begin_it_def)
  with from_begin[of ?T] have r: "reachable ?T ?it" by (rule by_increment)
  from reachable_cursor_at_prime_or_end[OF prime_table_init_30 _ r] prime_table_init_30 r
  show ?thesis by simp
qed

end
